theory Spec2Isabelle
  imports Complex_Main "HOL-Library.Word" "HOL-Library.Multiset"
begin

unbundle bit_operations_syntax

chapter \<open>Titan blob garbage collection: candidate picker, blob file iterator, merge iterator\<close>

text \<open>
  A shallow embedding of \<^verbatim>\<open>src/blob_gc_picker.cc\<close> (\<^verbatim>\<open>BasicBlobGCPicker\<close>) and of the
  blob file iterators (\<^verbatim>\<open>BlobFileIterator\<close>, \<^verbatim>\<open>BlobFileMergeIterator\<close>).
  The \<^verbatim>\<open>uint64_t\<close> and \<^verbatim>\<open>uint32_t\<close> values of the source are machine words, so every
  addition, subtraction and shift wraps as in C++.
\<close>

type_synonym u64 = "64 word"
type_synonym u32 = "32 word"

section \<open>Options and metadata shared by the components\<close>

text \<open>
  Modelled from the spec: the declarations of \<^verbatim>\<open>BlobFileMeta\<close>, its \<^verbatim>\<open>FileState\<close>,
  \<^verbatim>\<open>TitanCFOptions\<close>, \<^verbatim>\<open>GCScore\<close>, \<^verbatim>\<open>BlobStorage\<close> and \<^verbatim>\<open>BlobGC\<close> are in headers
  that are not among the sources. The records below hold exactly the members the two
  source files read or write. The picker compares \<^verbatim>\<open>double\<close> scores with \<^verbatim>\<open>>=\<close>,
  \<^verbatim>\<open><\<close> and \<^verbatim>\<open>std::abs(1.0 - score) > epsilon\<close> only; scores are modelled as
  reals (no NaN), and \<^verbatim>\<open>GetDiscardableRatio()\<close> is a field of the metadata.
\<close>

datatype FileState = kNone | kNormal | kBeingGC | kObsolete

datatype TitanBlobRunMode = kRunNormal | kReadOnly | kFallback

record BlobFileMeta =
  file_number :: u64
  file_size :: u64
  live_data_size :: u64
  file_state :: FileState
  GetDiscardableRatio :: real

record GCScore =
  score_file_number :: u64
  score :: real

record TitanCFOptions =
  min_blob_size :: u64
  blob_run_mode :: TitanBlobRunMode
  blob_file_discardable_ratio :: real
  max_gc_batch_size :: u64
  min_gc_batch_size :: u64
  blob_file_target_size :: u64
  merge_small_file_threshold :: u64

text \<open>
  \<^verbatim>\<open>FindFile(n).lock()\<close> yields a shared pointer that is null when the file is gone:
  an \<open>option\<close>.
\<close>

record BlobStorage =
  punch_hole_score :: "GCScore list"
  gc_score :: "GCScore list"
  FindFile :: "u64 \<Rightarrow> BlobFileMeta option"

record BlobGC =
  inputs :: "BlobFileMeta list"
  gc_cf_options :: TitanCFOptions
  trigger_next :: bool
  gc_cf_id :: u32
  punch_hole :: bool

section \<open>The candidate picker (\<^verbatim>\<open>BasicBlobGCPicker\<close>)\<close>

text \<open>
  The locals of \<^verbatim>\<open>PickBlobGC\<close>, together with what it writes to the info log and the
  statistics (both are effects on collaborators; they are kept as lists so that a
  skipped candidate can be told from a picked one).
\<close>

datatype log_entry = NoNeedGC u64 | RemainMore u64 | GotBatch u64 u64

datatype ticker = TITAN_GC_SMALL_FILE | TITAN_GC_DISCARDABLE | TITAN_GC_REMAIN

record pick_state =
  blob_files :: "BlobFileMeta list"
  batch_size :: u64
  estimate_output_size :: u64
  stop_picking :: bool
  maybe_continue_next_time :: bool
  next_gc_size :: u64
  info_log :: "log_entry list"
  ticks :: "ticker list"

definition initial_pick_state :: pick_state where
  "initial_pick_state =
     \<lparr>blob_files = [], batch_size = 0, estimate_output_size = 0, stop_picking = False,
      maybe_continue_next_time = False, next_gc_size = 0, info_log = [], ticks = []\<rparr>"

text \<open>
  The one way the picker can fail: \<^verbatim>\<open>blob_file->file_number()\<close> on a null shared pointer.
  Every \<^verbatim>\<open>blob_file->\<close> of the source is a \<open>deref\<close> here.
\<close>

datatype picker_error = NullDereference

fun deref :: "'a option \<Rightarrow> picker_error + 'a" where
  "deref None = Inl NullDereference"
| "deref (Some x) = Inr x"

text \<open>
  \<^verbatim>\<open>CheckBlobFile\<close> (lines 138-146). Its \<^verbatim>\<open>assert\<close> (state is not \<^verbatim>\<open>kNone\<close>) is compiled
  out of release builds and is not part of the model.
\<close>

fun CheckBlobFile :: "BlobFileMeta option \<Rightarrow> bool" where
  "CheckBlobFile None = False"
| "CheckBlobFile (Some blob_file) = (file_state blob_file = kNormal)"

text \<open>
  The first loop of \<^verbatim>\<open>PickBlobGC\<close> (lines 36-60), over \<^verbatim>\<open>punch_hole_score()\<close>. The
  arguments of \<^verbatim>\<open>TITAN_LOG_INFO\<close> are evaluated as the arguments of a logging call
  are, so the skip branch dereferences \<^verbatim>\<open>blob_file\<close> before it continues.
\<close>

fun punch_hole_loop ::
  "TitanCFOptions \<Rightarrow> BlobStorage \<Rightarrow> GCScore list \<Rightarrow> pick_state \<Rightarrow> picker_error + pick_state" where
  "punch_hole_loop opts storage [] st = Inr st"
| "punch_hole_loop opts storage (sc # rest) st =
     (if score sc \<ge> blob_file_discardable_ratio opts then Inr st
      else
        let blob_file = FindFile storage (score_file_number sc) in
        if \<not> CheckBlobFile blob_file then
          (case deref blob_file of
             Inl e \<Rightarrow> Inl e
           | Inr bf \<Rightarrow>
               punch_hole_loop opts storage rest
                 (st\<lparr>info_log := info_log st @ [NoNeedGC (file_number bf)]\<rparr>))
        else if \<not> stop_picking st then
          (case deref blob_file of
             Inl e \<Rightarrow> Inl e
           | Inr bf \<Rightarrow>
               let st1 = st\<lparr>blob_files := blob_files st @ [bf],
                              batch_size := batch_size st + file_size bf\<rparr>;
                   st2 = (if batch_size st1 \<ge> max_gc_batch_size opts
                          then st1\<lparr>stop_picking := True\<rparr> else st1)
               in punch_hole_loop opts storage rest st2)
        else Inr (st\<lparr>maybe_continue_next_time := True\<rparr>))"

text \<open>
  \<^verbatim>\<open>std::numeric_limits<double>::epsilon()\<close> of an IEEE double.
\<close>

definition double_epsilon :: real where
  "double_epsilon = 1 / 2 ^ 52"

text \<open>
  The second loop (lines 67-109), over \<^verbatim>\<open>gc_score()\<close>.
\<close>

fun gc_loop ::
  "TitanCFOptions \<Rightarrow> BlobStorage \<Rightarrow> GCScore list \<Rightarrow> pick_state \<Rightarrow> picker_error + pick_state" where
  "gc_loop opts storage [] st = Inr st"
| "gc_loop opts storage (sc # rest) st =
     (let in_fallback = (blob_run_mode opts = kFallback) in
      if in_fallback \<and> \<bar>1 - score sc\<bar> > double_epsilon then Inr st
      else
        let blob_file = FindFile storage (score_file_number sc) in
        if \<not> CheckBlobFile blob_file then
          (case deref blob_file of
             Inl e \<Rightarrow> Inl e
           | Inr bf \<Rightarrow>
               gc_loop opts storage rest
                 (st\<lparr>info_log := info_log st @ [NoNeedGC (file_number bf)]\<rparr>))
        else
          (case deref blob_file of
             Inl e \<Rightarrow> Inl e
           | Inr bf \<Rightarrow>
               if \<not> stop_picking st then
                 let st1 = st\<lparr>blob_files := blob_files st @ [bf],
                                ticks := ticks st @
                                  [if file_size bf \<le> merge_small_file_threshold opts
                                   then TITAN_GC_SMALL_FILE else TITAN_GC_DISCARDABLE],
                                batch_size := batch_size st + file_size bf,
                                estimate_output_size :=
                                  estimate_output_size st + live_data_size bf\<rparr>;
                     st2 = (if batch_size st1 \<ge> max_gc_batch_size opts \<or>
                               estimate_output_size st1 \<ge> blob_file_target_size opts
                            then st1\<lparr>stop_picking := True\<rparr> else st1)
                 in gc_loop opts storage rest st2
               else
                 let st1 = st\<lparr>next_gc_size := next_gc_size st + file_size bf\<rparr> in
                 if next_gc_size st1 > min_gc_batch_size opts \<or> in_fallback then
                   Inr (st1\<lparr>maybe_continue_next_time := True,
                             ticks := ticks st1 @ [TITAN_GC_REMAIN],
                             info_log := info_log st1 @ [RemainMore (next_gc_size st1)]\<rparr>)
                 else gc_loop opts storage rest st1))"

text \<open>
  \<^verbatim>\<open>PickBlobGC\<close> (lines 24-136). The result is the plan (\<open>None\<close> for \<^verbatim>\<open>nullptr\<close>) with
  the final locals, or the failure. The \<^verbatim>\<open>BlobGC\<close> constructor's last parameter
  (\<^verbatim>\<open>punch_hole\<close>) is left at its default (false) by the second \<^verbatim>\<open>new BlobGC\<close>.
\<close>

definition PickBlobGC ::
  "TitanCFOptions \<Rightarrow> u32 \<Rightarrow> BlobStorage \<Rightarrow> picker_error + (BlobGC option \<times> pick_state)" where
  "PickBlobGC opts cf_id storage =
     (let in_fallback = (blob_run_mode opts = kFallback) in
      case punch_hole_loop opts storage (punch_hole_score storage) initial_pick_state of
        Inl e \<Rightarrow> Inl e
      | Inr st1 \<Rightarrow>
          if blob_files st1 \<noteq> [] then
            Inr (Some \<lparr>inputs = blob_files st1, gc_cf_options = opts,
                       trigger_next = maybe_continue_next_time st1, gc_cf_id = cf_id,
                       punch_hole = True\<rparr>, st1)
          else
            (case gc_loop opts storage (gc_score storage) st1 of
               Inl e \<Rightarrow> Inl e
             | Inr st2 \<Rightarrow>
                 let st3 = st2\<lparr>info_log := info_log st2 @
                                 [GotBatch (batch_size st2) (estimate_output_size st2)]\<rparr> in
                 if blob_files st3 = [] then Inr (None, st3)
                 else if \<not> in_fallback \<and>
                         batch_size st3 < min_gc_batch_size opts \<and>
                         estimate_output_size st3 < blob_file_target_size opts
                   then Inr (None, st3)
                 else if \<not> in_fallback \<and>
                         length (blob_files st3) = 1 \<and>
                         file_size (blob_files st3 ! 0) \<le> merge_small_file_threshold opts \<and>
                         GetDiscardableRatio (blob_files st3 ! 0) <
                           blob_file_discardable_ratio opts
                   then Inr (None, st3)
                 else
                   Inr (Some \<lparr>inputs = blob_files st3, gc_cf_options = opts,
                              trigger_next = maybe_continue_next_time st3, gc_cf_id = cf_id,
                              punch_hole = False\<rparr>, st3)))"

section \<open>The blob file iterator (\<^verbatim>\<open>BlobFileIterator\<close>)\<close>

subsection \<open>What the iterator consumes\<close>

datatype Status = OK | Corruption | InvalidArgument | IOError | Aborted

type_synonym Slice = string

record BlobRecord =
  key :: Slice
  val :: Slice

text \<open>
  The constants the iterator uses are declared in headers that are not among the
  sources; they are parameters of the model. (The comments of \<^verbatim>\<open>Init\<close> give 32 for the
  footer and 5 for the block trailer.)
\<close>

record titan_consts =
  kRecordHeaderSize :: u64
  kFooterEncodedLength :: u64
  kBlockTrailerSize :: u64
  kHasUncompressionDictionary :: u32
  kDefaultPageSize :: u64
  kMinReadaheadSize :: u64
  kMaxReadaheadSize :: u64

record BlobFileHeader =
  hdr_size :: u64
  flags :: u32
  hdr_block_size :: u64

text \<open>
  \<open>meta_index_handle\<close> is \<open>None\<close> for a null handle, and its \<^verbatim>\<open>size()\<close> otherwise.
\<close>

record BlobFileFooter =
  meta_index_handle :: "u64 option"

text \<open>
  Modelled from the spec: the file reader (\<^verbatim>\<open>RandomAccessFileReader\<close>) and the codec
  (\<^verbatim>\<open>DecodeInto\<close>, \<^verbatim>\<open>BlobFileFooter::DecodeFrom\<close>, \<^verbatim>\<open>InitUncompressionDict\<close>,
  \<^verbatim>\<open>BlobDecoder\<close>) are collaborators whose code is not among the sources. A file is
  what those calls answer: each field is the outcome of one call of the iterator.
  \<^item> \<open>read_header\<close>: the status of the read of the file header at offset 0;
  \<^item> \<open>decode_header\<close>: the status of \<^verbatim>\<open>DecodeInto\<close> and the decoded header;
  \<^item> \<open>read_footer off\<close>, \<open>decode_footer off\<close>: the same for the footer read at \<open>off\<close>;
  \<^item> \<open>init_uncompression_dict\<close>: the status of \<^verbatim>\<open>InitUncompressionDict\<close> and the size of
    the raw dictionary;
  \<^item> \<open>read_record_header off\<close>: the status of the read of a record header at \<open>off\<close> and the
    32-bit value at byte 4 of the buffer (the payload length as \<^verbatim>\<open>GetBlobRecord\<close> reads it);
  \<^item> \<open>decode_record_header off\<close>: the status of \<^verbatim>\<open>DecodeHeader\<close> on that buffer and
    \<^verbatim>\<open>GetRecordSize()\<close>;
  \<^item> \<open>read_record off n\<close>: the status of the read of \<open>n\<close> payload bytes at \<open>off\<close>;
  \<^item> \<open>decode_record off n\<close>: the status of \<^verbatim>\<open>DecodeRecord\<close> on those bytes and what it
    leaves in \<^verbatim>\<open>cur_blob_record_\<close>.
  \<^verbatim>\<open>Prefetch\<close> is advisory and its result is ignored by the source; it has no field.
\<close>

record blob_file =
  read_header :: Status
  decode_header :: "Status \<times> BlobFileHeader"
  read_footer :: "u64 \<Rightarrow> Status"
  decode_footer :: "u64 \<Rightarrow> Status \<times> BlobFileFooter"
  init_uncompression_dict :: "BlobFileFooter \<Rightarrow> Status \<times> u64"
  read_record_header :: "u64 \<Rightarrow> Status \<times> u32"
  decode_record_header :: "u64 \<Rightarrow> Status \<times> u32"
  read_record :: "u64 \<Rightarrow> u64 \<Rightarrow> Status"
  decode_record :: "u64 \<Rightarrow> u64 \<Rightarrow> Status \<times> BlobRecord"

text \<open>
  Modelled from the spec: \<^verbatim>\<open>Roundup\<close> is a helper of a header that is not among the
  sources; it rounds \<open>x\<close> up to the next multiple of \<open>y\<close>, in \<^verbatim>\<open>uint64_t\<close> arithmetic.
\<close>

definition Roundup :: "u64 \<Rightarrow> u64 \<Rightarrow> u64" where
  "Roundup x y = ((x + y - 1) div y) * y"

subsection \<open>The iterator's state\<close>

text \<open>
  The members of \<^verbatim>\<open>BlobFileIterator\<close> that its methods read or write (a member \<^verbatim>\<open>x_\<close> is
  the field \<open>x\<close>; \<^verbatim>\<open>file_\<close> is \<open>file_reader\<close>, \<^verbatim>\<open>file_size_\<close> is \<open>iter_file_size\<close>). \<open>uncompression_dict\<close> is the size
  of the installed dictionary, if one was installed.
\<close>

record BlobFileIterator =
  file_reader :: blob_file
  iter_file_size :: u64
  titan_cf_options :: TitanCFOptions
  init :: bool
  valid :: bool
  status :: Status
  header_size :: u64
  block_size :: u64
  end_of_blob_record :: u64
  uncompression_dict :: "u64 option"
  iterate_offset :: u64
  cur_blob_record :: BlobRecord
  cur_record_offset :: u64
  cur_record_size :: u64
  readahead_begin_offset :: u64
  readahead_end_offset :: u64
  readahead_size :: u64

text \<open>
  The constructor (lines 12-18) stores the file, its size and the options. The other
  members start from their in-class initialisers: the flags false, the status ok, the
  offsets 0 and the read-ahead size \<^verbatim>\<open>kMinReadaheadSize\<close>.
\<close>

definition new_BlobFileIterator ::
  "titan_consts \<Rightarrow> blob_file \<Rightarrow> u64 \<Rightarrow> TitanCFOptions \<Rightarrow> BlobFileIterator" where
  "new_BlobFileIterator c f fsize opts =
     \<lparr>file_reader = f, iter_file_size = fsize, titan_cf_options = opts,
      init = False, valid = False, status = OK, header_size = 0, block_size = 0,
      end_of_blob_record = 0, uncompression_dict = None, iterate_offset = 0,
      cur_blob_record = \<lparr>key = [], val = []\<rparr>, cur_record_offset = 0, cur_record_size = 0,
      readahead_begin_offset = 0, readahead_end_offset = 0,
      readahead_size = kMinReadaheadSize c\<rparr>"

subsection \<open>\<^verbatim>\<open>Init\<close>, \<^verbatim>\<open>Valid\<close>\<close>

text \<open>
  \<^verbatim>\<open>Init\<close> (lines 22-80). The status of the footer's \<^verbatim>\<open>DecodeFrom\<close> is stored and, as in
  the source, not tested. The final \<^verbatim>\<open>assert\<close> is compiled out of release builds.
\<close>

definition Init :: "titan_consts \<Rightarrow> BlobFileIterator \<Rightarrow> bool \<times> BlobFileIterator" where
  "Init c s =
     (let s1 = s\<lparr>status := read_header (file_reader s)\<rparr> in
      if status s1 \<noteq> OK then (False, s1)
      else
        let (st2, blob_file_header) = decode_header (file_reader s1);
            s2 = s1\<lparr>status := st2\<rparr>
        in
        if status s2 \<noteq> OK then (False, s2)
        else
          let s3 = s2\<lparr>header_size := hdr_size blob_file_header\<rparr>;
              footer_offset = iter_file_size s3 - kFooterEncodedLength c;
              s4 = s3\<lparr>status := read_footer (file_reader s3) footer_offset\<rparr>
          in
          if status s4 \<noteq> OK then (False, s4)
          else
            let (st5, blob_file_footer) = decode_footer (file_reader s4) footer_offset;
                s5 = s4\<lparr>status := st5,
                        end_of_blob_record := iter_file_size s4 - kFooterEncodedLength c\<rparr>;
                s6 = (case meta_index_handle blob_file_footer of
                        None \<Rightarrow> s5
                      | Some sz \<Rightarrow>
                          s5\<lparr>end_of_blob_record :=
                                end_of_blob_record s5 - (sz + kBlockTrailerSize c)\<rparr>)
            in
            if flags blob_file_header AND kHasUncompressionDictionary c \<noteq> 0 then
              let (st7, dict_size) = init_uncompression_dict (file_reader s6) blob_file_footer;
                  s7 = s6\<lparr>status := st7\<rparr>
              in
              if status s7 \<noteq> OK then (False, s7)
              else
                (True,
                 s7\<lparr>uncompression_dict := Some dict_size,
                    end_of_blob_record :=
                      end_of_blob_record s7 - (dict_size + kBlockTrailerSize c),
                    block_size := hdr_block_size blob_file_header,
                    init := True\<rparr>)
            else
              (True, s6\<lparr>block_size := hdr_block_size blob_file_header, init := True\<rparr>))"

definition Valid :: "BlobFileIterator \<Rightarrow> bool" where
  "Valid s = (valid s \<and> status s = OK)"

subsection \<open>\<^verbatim>\<open>GetBlobRecord\<close> and \<^verbatim>\<open>PrefetchAndGet\<close>\<close>

text \<open>
  \<^verbatim>\<open>GetBlobRecord\<close> (lines 139-180): the returned flag and the state it leaves.
\<close>

definition GetBlobRecord :: "titan_consts \<Rightarrow> BlobFileIterator \<Rightarrow> bool \<times> BlobFileIterator" where
  "GetBlobRecord c s =
     (let (st1, size) = read_record_header (file_reader s) (iterate_offset s);
          s1 = s\<lparr>status := st1\<rparr>
      in
      if status s1 \<noteq> OK then (False, s1)
      else if size = 0 then (False, s1)
      else
        let (st2, decoded_size) = decode_record_header (file_reader s1) (iterate_offset s1);
            s2 = s1\<lparr>status := st2\<rparr>
        in
        if status s2 \<noteq> OK then (False, s2)
        else
          let record_size = (ucast decoded_size :: u64);
              payload_offset = iterate_offset s2 + kRecordHeaderSize c;
              s3 = s2\<lparr>status := read_record (file_reader s2) payload_offset record_size\<rparr>;
              s4 = (if status s3 = OK
                    then let (st4, r) = decode_record (file_reader s3) payload_offset record_size
                         in s3\<lparr>status := st4, cur_blob_record := r\<rparr>
                    else s3)
          in
          if status s4 \<noteq> OK then (False, s4)
          else
            let s5 = s4\<lparr>cur_record_offset := iterate_offset s4,
                        cur_record_size := kRecordHeaderSize c + record_size\<rparr>;
                s6 = s5\<lparr>iterate_offset := iterate_offset s5 + cur_record_size s5\<rparr>;
                s7 = (if block_size s6 \<noteq> 0
                      then s6\<lparr>iterate_offset := Roundup (iterate_offset s6) (block_size s6)\<rparr>
                      else s6)
            in (True, s7\<lparr>valid := True\<rparr>))"

text \<open>
  The read-ahead bookkeeping of \<^verbatim>\<open>PrefetchAndGet\<close> (lines 184-201). The inner
  \<^verbatim>\<open>while\<close> doubles the window; it is a loop of its own, and \<open>None\<close> is its not
  returning.
\<close>

partial_function (option) grow_readahead :: "u64 \<Rightarrow> u64 \<Rightarrow> u64 \<Rightarrow> u64 \<Rightarrow> u64 option" where
  "grow_readahead kmax rend min_blob rsize =
     (if rend + rsize \<le> min_blob \<and> rsize < kmax
      then grow_readahead kmax rend min_blob (push_bit 1 rsize)
      else Some rsize)"

declare grow_readahead.simps [code]

definition readahead :: "titan_consts \<Rightarrow> BlobFileIterator \<Rightarrow> BlobFileIterator option" where
  "readahead c s =
     (let s1 = (if readahead_begin_offset s > iterate_offset s \<or>
                   readahead_end_offset s < iterate_offset s
                then
                  let b = iterate_offset s - (iterate_offset s AND (kDefaultPageSize c - 1))
                  in s\<lparr>readahead_begin_offset := b, readahead_end_offset := b,
                       readahead_size := kMinReadaheadSize c\<rparr>
                else s);
          min_blob = iterate_offset s1 + kRecordHeaderSize c + min_blob_size (titan_cf_options s1)
      in
      if readahead_end_offset s1 \<le> min_blob then
        (case grow_readahead (kMaxReadaheadSize c) (readahead_end_offset s1) min_blob
                (readahead_size s1) of
           None \<Rightarrow> None
         | Some rsize \<Rightarrow>
             Some (s1\<lparr>readahead_end_offset := readahead_end_offset s1 + rsize,
                      readahead_size := min (kMaxReadaheadSize c) (push_bit 1 rsize)\<rparr>))
      else Some s1)"

text \<open>
  \<^verbatim>\<open>PrefetchAndGet\<close> (lines 182-217). \<open>None\<close> is the loop not returning.
\<close>

partial_function (option) PrefetchAndGet ::
  "titan_consts \<Rightarrow> BlobFileIterator \<Rightarrow> BlobFileIterator option" where
  "PrefetchAndGet c s =
     (if iterate_offset s < end_of_blob_record s then
        (case readahead c s of
           None \<Rightarrow> None
         | Some s1 \<Rightarrow>
             (case GetBlobRecord c s1 of
                (live, s2) \<Rightarrow>
                  let s3 = (if readahead_end_offset s2 < iterate_offset s2
                            then s2\<lparr>readahead_end_offset := iterate_offset s2\<rparr>
                            else s2)
                  in
                  if live \<or> status s3 \<noteq> OK then Some s3
                  else PrefetchAndGet c (s3\<lparr>iterate_offset := iterate_offset s3 + block_size s3\<rparr>)))
      else Some (s\<lparr>valid := False\<rparr>))"

declare PrefetchAndGet.simps [code]

subsection \<open>\<^verbatim>\<open>SeekToFirst\<close>, \<^verbatim>\<open>Next\<close>, \<^verbatim>\<open>IterateForPrev\<close>\<close>

text \<open>
  \<^verbatim>\<open>SeekToFirst\<close> (lines 82-90).
\<close>

definition SeekToFirst :: "titan_consts \<Rightarrow> BlobFileIterator \<Rightarrow> BlobFileIterator option" where
  "SeekToFirst c s =
     (let (go, s0) = (if init s then (True, s) else Init c s) in
      if \<not> go then Some s0
      else
        let s1 = s0\<lparr>status := OK\<rparr>;
            s2 = s1\<lparr>iterate_offset := header_size s1\<rparr>;
            s3 = (if block_size s2 \<noteq> 0
                  then s2\<lparr>iterate_offset := Roundup (iterate_offset s2) (block_size s2)\<rparr>
                  else s2)
        in PrefetchAndGet c s3)"

text \<open>
  \<^verbatim>\<open>Next\<close> (lines 94-97). Its \<^verbatim>\<open>assert(init_)\<close> is compiled out of release builds.
\<close>

definition Next :: "titan_consts \<Rightarrow> BlobFileIterator \<Rightarrow> BlobFileIterator option" where
  "Next c s = PrefetchAndGet c s"

text \<open>
  The \<^verbatim>\<open>while\<close> loop of \<^verbatim>\<open>IterateForPrev\<close> (lines 118-133) with its local
  \<^verbatim>\<open>total_length\<close>. The flag of the result is false when the loop left through one of
  its \<^verbatim>\<open>return\<close>s.
\<close>

partial_function (option) IterateForPrev_loop ::
  "titan_consts \<Rightarrow> u64 \<Rightarrow> u64 \<Rightarrow> BlobFileIterator \<Rightarrow> (bool \<times> u64 \<times> BlobFileIterator) option" where
  "IterateForPrev_loop c offset total_length s =
     (if iterate_offset s < offset then
        let s1 = s\<lparr>status := fst (read_record_header (file_reader s) (iterate_offset s))\<rparr> in
        if status s1 \<noteq> OK then Some (False, total_length, s1)
        else
          (case decode_record_header (file_reader s1) (iterate_offset s1) of
             (st2, decoded_size) \<Rightarrow>
               let s2 = s1\<lparr>status := st2\<rparr> in
               if status s2 \<noteq> OK then Some (False, total_length, s2)
               else
                 let t1 = kRecordHeaderSize c + ucast decoded_size;
                     t2 = (if block_size s2 \<noteq> 0 then Roundup t1 (block_size s2) else t1)
                 in IterateForPrev_loop c offset t2
                      (s2\<lparr>iterate_offset := iterate_offset s2 + t2\<rparr>))
      else Some (True, total_length, s))"

declare IterateForPrev_loop.simps [code]

text \<open>
  \<^verbatim>\<open>IterateForPrev\<close> (lines 103-137).
\<close>

definition IterateForPrev ::
  "titan_consts \<Rightarrow> u64 \<Rightarrow> BlobFileIterator \<Rightarrow> BlobFileIterator option" where
  "IterateForPrev c offset s =
     (let (go, s0) = (if init s then (True, s) else Init c s) in
      if \<not> go then Some s0
      else
        let s1 = s0\<lparr>status := OK\<rparr> in
        if offset \<ge> end_of_blob_record s1 then
          Some (s1\<lparr>iterate_offset := offset, status := InvalidArgument\<rparr>)
        else
          let s2 = s1\<lparr>iterate_offset :=
                        (if block_size s1 > 0 then Roundup (header_size s1) (block_size s1)
                         else header_size s1)\<rparr>
          in
          (case IterateForPrev_loop c offset 0 s2 of
             None \<Rightarrow> None
           | Some (finished, total_length, s3) \<Rightarrow>
               if \<not> finished then Some s3
               else
                 let s4 = (if iterate_offset s3 > offset
                           then s3\<lparr>iterate_offset := iterate_offset s3 - total_length\<rparr>
                           else s3)
                 in Some (s4\<lparr>valid := False\<rparr>)))"

subsection \<open>A full scan\<close>

text \<open>
  The caller's loop over one file, \<^verbatim>\<open>for (it.SeekToFirst(); it.Valid(); it.Next())\<close>:
  the start offset and the record of every position at which \<open>Valid\<close> held, and the
  iterator as the loop leaves it.
\<close>

partial_function (option) drain ::
  "titan_consts \<Rightarrow> BlobFileIterator \<Rightarrow> ((u64 \<times> BlobRecord) list \<times> BlobFileIterator) option" where
  "drain c s =
     (if Valid s then
        (case Next c s of
           None \<Rightarrow> None
         | Some s' \<Rightarrow>
             Option.bind (drain c s')
               (\<lambda>(rs, t). Some ((cur_record_offset s, cur_blob_record s) # rs, t)))
      else Some ([], s))"

declare drain.simps [code]

definition scan_all ::
  "titan_consts \<Rightarrow> BlobFileIterator \<Rightarrow> ((u64 \<times> BlobRecord) list \<times> BlobFileIterator) option" where
  "scan_all c s = (case SeekToFirst c s of None \<Rightarrow> None | Some s' \<Rightarrow> drain c s')"

section \<open>The merge iterator (\<^verbatim>\<open>BlobFileMergeIterator\<close>)\<close>

text \<open>
  Modelled from the spec: the class declaration (the members \<^verbatim>\<open>blob_file_iterators_\<close>,
  \<^verbatim>\<open>min_heap_\<close>, \<^verbatim>\<open>current_\<close>, \<^verbatim>\<open>status_\<close>, the method \<^verbatim>\<open>status()\<close> and the functor
  \<^verbatim>\<open>BlobFileIterComparator\<close>) lives in a header that is not among the sources; the
  method bodies below are those of the \<^verbatim>\<open>.cc\<close> file. The children are owned by the
  vector \<^verbatim>\<open>blob_file_iterators_\<close>; the heap and \<^verbatim>\<open>current_\<close> hold raw pointers into it and
  are indices here, \<open>None\<close> for \<^verbatim>\<open>nullptr\<close>.
\<close>

record BlobFileMergeIterator =
  blob_file_iterators :: "BlobFileIterator list"
  min_heap :: "nat list"
  current :: "nat option"
  merge_status :: Status

definition new_BlobFileMergeIterator :: "BlobFileIterator list \<Rightarrow> BlobFileMergeIterator" where
  "new_BlobFileMergeIterator its =
     \<lparr>blob_file_iterators = its, min_heap = [], current = None, merge_status = OK\<rparr>"

text \<open>
  Modelled from the spec: \<^verbatim>\<open>BlobFileIterComparator\<close> is the ordering handed to
  \<^verbatim>\<open>std::priority_queue\<close>; for the queue to be a min-heap on the decoded key it answers
  whether the first child's key is greater than the second's under the injected
  comparator, a three-way comparison returning a negative, zero or positive number.
\<close>

definition BlobFileIterComparator ::
  "(Slice \<Rightarrow> Slice \<Rightarrow> int) \<Rightarrow> BlobFileIterator \<Rightarrow> BlobFileIterator \<Rightarrow> bool" where
  "BlobFileIterComparator comparator iter1 iter2 =
     (comparator (key (cur_blob_record iter1)) (key (cur_blob_record iter2)) > 0)"

text \<open>
  \<^verbatim>\<open>min_heap_.top()\<close>: an element of the queue that no other element precedes. The
  queue is the list of the children pushed and not yet popped; among children with
  equal keys the standard library leaves the choice open, and the leftmost is taken
  here. The theorems below use only that the top is in the queue and minimal.
\<close>

fun heap_top :: "(Slice \<Rightarrow> Slice \<Rightarrow> int) \<Rightarrow> BlobFileIterator list \<Rightarrow> nat list \<Rightarrow> nat" where
  "heap_top comparator its [] = 0"
| "heap_top comparator its (i # h) =
     fold (\<lambda>j m. if BlobFileIterComparator comparator (its ! m) (its ! j) then j else m) h i"

text \<open>
  \<^verbatim>\<open>key()\<close> and \<^verbatim>\<open>value()\<close> and \<^verbatim>\<open>Next()\<close> dereference \<^verbatim>\<open>current_\<close>; with assertions
  compiled out a null \<^verbatim>\<open>current_\<close> is the error \<open>NullCurrent\<close>.
\<close>

datatype merge_error = NullCurrent

text \<open>
  \<^verbatim>\<open>Valid\<close>. Modelled from the spec: \<^verbatim>\<open>status()\<close> is the current child's status when
  that is non-ok, and the merge iterator's own status otherwise.
\<close>

definition MergeValid :: "BlobFileMergeIterator \<Rightarrow> bool" where
  "MergeValid m =
     (case current m of
        None \<Rightarrow> False
      | Some i \<Rightarrow>
          let cur = blob_file_iterators m ! i;
              st = (if status cur \<noteq> OK then status cur else merge_status m)
          in if st \<noteq> OK then False else Valid cur \<and> status cur = OK)"

text \<open>\<^verbatim>\<open>current_ = min_heap_.top(); min_heap_.pop();\<close>\<close>

definition take_top ::
  "(Slice \<Rightarrow> Slice \<Rightarrow> int) \<Rightarrow> BlobFileMergeIterator \<Rightarrow> BlobFileMergeIterator" where
  "take_top comparator m =
     (let top = heap_top comparator (blob_file_iterators m) (min_heap m)
      in m\<lparr>current := Some top, min_heap := remove1 top (min_heap m)\<rparr>)"

text \<open>
  \<^verbatim>\<open>SeekToFirst\<close>: every child is sought to its first record and pushed when it is
  error-free and valid; then the minimum becomes current, or the status becomes
  \<^verbatim>\<open>Aborted\<close> when no child was pushed. A child whose own seek does not return makes the
  whole call not return.
\<close>

fun MergeSeek_loop ::
  "titan_consts \<Rightarrow> nat list \<Rightarrow> BlobFileMergeIterator \<Rightarrow> BlobFileMergeIterator option" where
  "MergeSeek_loop c [] m = Some m"
| "MergeSeek_loop c (i # rest) m =
     (case SeekToFirst c (blob_file_iterators m ! i) of
        None \<Rightarrow> None
      | Some it \<Rightarrow>
          let m1 = m\<lparr>blob_file_iterators := (blob_file_iterators m)[i := it]\<rparr>;
              m2 = (if status it = OK \<and> Valid it
                    then m1\<lparr>min_heap := min_heap m1 @ [i]\<rparr> else m1)
          in MergeSeek_loop c rest m2)"

definition MergeSeekToFirst ::
  "titan_consts \<Rightarrow> (Slice \<Rightarrow> Slice \<Rightarrow> int) \<Rightarrow> BlobFileMergeIterator \<Rightarrow> BlobFileMergeIterator option" where
  "MergeSeekToFirst c comparator m =
     (case MergeSeek_loop c [0..<length (blob_file_iterators m)] m of
        None \<Rightarrow> None
      | Some m1 \<Rightarrow>
          if min_heap m1 \<noteq> [] then Some (take_top comparator m1)
          else Some (m1\<lparr>merge_status := Aborted\<rparr>))"

text \<open>
  \<^verbatim>\<open>Next\<close>: the current child advances and is pushed back when it is still error-free
  and valid; then the minimum becomes current, or \<^verbatim>\<open>current_\<close> becomes null when the
  queue is empty.
\<close>

definition MergeNext ::
  "titan_consts \<Rightarrow> (Slice \<Rightarrow> Slice \<Rightarrow> int) \<Rightarrow> BlobFileMergeIterator \<Rightarrow>
   (merge_error + BlobFileMergeIterator) option" where
  "MergeNext c comparator m =
     (case current m of
        None \<Rightarrow> Some (Inl NullCurrent)
      | Some i \<Rightarrow>
          (case Next c (blob_file_iterators m ! i) of
             None \<Rightarrow> None
           | Some it \<Rightarrow>
               let m1 = m\<lparr>blob_file_iterators := (blob_file_iterators m)[i := it]\<rparr>;
                   m2 = (if status it = OK \<and> Valid it
                         then m1\<lparr>min_heap := min_heap m1 @ [i]\<rparr> else m1)
               in if min_heap m2 \<noteq> [] then Some (Inr (take_top comparator m2))
                  else Some (Inr (m2\<lparr>current := None\<rparr>))))"

text \<open>\<^verbatim>\<open>key()\<close> and \<^verbatim>\<open>value()\<close> together: the current child's decoded record.\<close>

definition MergeRecord :: "BlobFileMergeIterator \<Rightarrow> merge_error + BlobRecord" where
  "MergeRecord m =
     (case current m of
        None \<Rightarrow> Inl NullCurrent
      | Some i \<Rightarrow> Inr (cur_blob_record (blob_file_iterators m ! i)))"

text \<open>
  The caller's loop over the merge, \<^verbatim>\<open>for (it.SeekToFirst(); it.Valid(); it.Next())\<close>:
  the records emitted, in the order of emission.
\<close>

partial_function (option) merge_drain ::
  "titan_consts \<Rightarrow> (Slice \<Rightarrow> Slice \<Rightarrow> int) \<Rightarrow> BlobFileMergeIterator \<Rightarrow>
   (merge_error + BlobRecord list) option" where
  "merge_drain c comparator m =
     (if MergeValid m then
        (case MergeRecord m of
           Inl e \<Rightarrow> Some (Inl e)
         | Inr r \<Rightarrow>
             (case MergeNext c comparator m of
                None \<Rightarrow> None
              | Some (Inl e) \<Rightarrow> Some (Inl e)
              | Some (Inr m') \<Rightarrow>
                  Option.bind (merge_drain c comparator m')
                    (\<lambda>res. case res of Inl e \<Rightarrow> Some (Inl e) | Inr rs \<Rightarrow> Some (Inr (r # rs)))))
      else Some (Inr []))"

declare merge_drain.simps [code]

definition merge_all ::
  "titan_consts \<Rightarrow> (Slice \<Rightarrow> Slice \<Rightarrow> int) \<Rightarrow> BlobFileIterator list \<Rightarrow>
   (merge_error + BlobRecord list) option" where
  "merge_all c comparator its =
     (case MergeSeekToFirst c comparator (new_BlobFileMergeIterator its) of
        None \<Rightarrow> None
      | Some m \<Rightarrow> merge_drain c comparator m)"

section \<open>Well-formed blob files\<close>

text \<open>
  The read-ahead constants are sane when the minimum is positive and at most the
  maximum, and doubling the maximum twice does not overflow (Titan's are 4 KiB and
  256 KiB). An iterator's window size is sane when it is positive and at most the
  maximum; the constructor and every step of \<open>readahead\<close> establish this.
\<close>

definition consts_ok :: "titan_consts \<Rightarrow> bool" where
  "consts_ok c =
     (kMinReadaheadSize c \<noteq> 0 \<and> kMinReadaheadSize c \<le> kMaxReadaheadSize c \<and>
      kMaxReadaheadSize c \<le> 2 ^ 62)"

text \<open>
  \<open>same_file s s'\<close>: the members that only \<open>Init\<close> writes are the same in both states.
\<close>

definition same_file :: "BlobFileIterator \<Rightarrow> BlobFileIterator \<Rightarrow> bool" where
  "same_file s s' =
     (file_reader s' = file_reader s \<and> iter_file_size s' = iter_file_size s \<and>
      titan_cf_options s' = titan_cf_options s \<and> init s' = init s \<and>
      header_size s' = header_size s \<and> block_size s' = block_size s \<and>
      end_of_blob_record s' = end_of_blob_record s \<and>
      uncompression_dict s' = uncompression_dict s)"

definition readahead_ok :: "titan_consts \<Rightarrow> BlobFileIterator \<Rightarrow> bool" where
  "readahead_ok c s = (readahead_size s \<noteq> 0 \<and> readahead_size s \<le> kMaxReadaheadSize c)"

text \<open>
  The record region of a file is a sequence of slots: a live record (its payload length
  and what it decodes to) or a hole-punched block. With a block size \<open>bs > 0\<close> the end
  of a record is rounded up to the next multiple of \<open>bs\<close>, and a hole is \<open>bs\<close> bytes.
  Offsets are natural numbers here: this is the layout on disk, not the iterator's
  arithmetic.
\<close>

datatype slot = Live u32 BlobRecord | Hole

fun slot_end :: "titan_consts \<Rightarrow> nat \<Rightarrow> nat \<Rightarrow> slot \<Rightarrow> nat" where
  "slot_end c bs off (Live n r) =
     (let e = off + unat (kRecordHeaderSize c) + unat n
      in if bs = 0 then e else ((e + bs - 1) div bs) * bs)"
| "slot_end c bs off Hole = off + bs"

text \<open>
  What the file answers at a slot that starts at \<open>off\<close>: a live record has a non-zero
  payload length, and its header and payload read and decode; a hole (only with a
  block size) reads as a header of zero bytes, which decodes to a payload length of 0.
\<close>

fun slot_ok :: "titan_consts \<Rightarrow> blob_file \<Rightarrow> nat \<Rightarrow> nat \<Rightarrow> slot \<Rightarrow> bool" where
  "slot_ok c f bs off (Live n r) =
     (n \<noteq> 0 \<and>
      read_record_header f (of_nat off) = (OK, n) \<and>
      decode_record_header f (of_nat off) = (OK, n) \<and>
      read_record f (of_nat off + kRecordHeaderSize c) (ucast n) = OK \<and>
      decode_record f (of_nat off + kRecordHeaderSize c) (ucast n) = (OK, r))"
| "slot_ok c f bs off Hole =
     (bs \<noteq> 0 \<and>
      read_record_header f (of_nat off) = (OK, 0) \<and>
      decode_record_header f (of_nat off) = (OK, 0))"

text \<open>
  \<open>slots_at c f bs off slots e\<close>: the slots lie one after the other from \<open>off\<close> and end
  exactly at \<open>e\<close>.
\<close>

fun slots_at :: "titan_consts \<Rightarrow> blob_file \<Rightarrow> nat \<Rightarrow> nat \<Rightarrow> slot list \<Rightarrow> nat \<Rightarrow> bool" where
  "slots_at c f bs off [] e = (off = e)"
| "slots_at c f bs off (sl # ss) e =
     (slot_ok c f bs off sl \<and> slots_at c f bs (slot_end c bs off sl) ss e)"

text \<open>
  The start offsets and records of the live slots, in file order.
\<close>

fun live_records :: "titan_consts \<Rightarrow> nat \<Rightarrow> nat \<Rightarrow> slot list \<Rightarrow> (u64 \<times> BlobRecord) list" where
  "live_records c bs off [] = []"
| "live_records c bs off (Live n r # ss) =
     (of_nat off, r) # live_records c bs (slot_end c bs off (Live n r)) ss"
| "live_records c bs off (Hole # ss) = live_records c bs (slot_end c bs off Hole) ss"

text \<open>
  The first live slot at or after \<open>off\<close>: its start, its record, its end and the slots
  after it.
\<close>

fun first_live ::
  "titan_consts \<Rightarrow> nat \<Rightarrow> nat \<Rightarrow> slot list \<Rightarrow> (nat \<times> BlobRecord \<times> nat \<times> slot list) option" where
  "first_live c bs off [] = None"
| "first_live c bs off (Live n r # ss) = Some (off, r, slot_end c bs off (Live n r), ss)"
| "first_live c bs off (Hole # ss) = first_live c bs (slot_end c bs off Hole) ss"


text \<open>
  The first offset of the record region, as a number: the header's size, rounded up to
  the block size when there is one.
\<close>

definition first_offset :: "nat \<Rightarrow> nat \<Rightarrow> nat" where
  "first_offset bs hs = (if bs = 0 then hs else ((hs + bs - 1) div bs) * bs)"

text \<open>
  A well-formed file, seen from a new iterator \<open>s\<close> on it: the header and the footer
  read and decode, the dictionary loads when the header announces one, and the slots
  fill the record region from its first offset to the boundary that \<open>Init\<close> computes.
  The region ends at least a block before \<open>2 ^ 64\<close>.
\<close>

definition wf_file :: "titan_consts \<Rightarrow> BlobFileIterator \<Rightarrow> slot list \<Rightarrow> bool" where
  "wf_file c s slots =
     (let f = file_reader s;
          footer_offset = iter_file_size s - kFooterEncodedLength c;
          s1 = snd (Init c s);
          bs = unat (block_size s1);
          e = unat (end_of_blob_record s1)
      in
      read_header f = OK \<and>
      fst (decode_header f) = OK \<and>
      read_footer f footer_offset = OK \<and>
      fst (decode_footer f footer_offset) = OK \<and>
      (flags (snd (decode_header f)) AND kHasUncompressionDictionary c = 0 \<or>
       fst (init_uncompression_dict f (snd (decode_footer f footer_offset))) = OK) \<and>
      e + bs < 2 ^ 64 \<and>
      slots_at c f bs (first_offset bs (unat (header_size s1))) slots e)"

text \<open>
  The offset at which \<^verbatim>\<open>SeekToFirst\<close> (lines 85-88) and \<^verbatim>\<open>IterateForPrev\<close> (lines
  116-117) put the cursor before they scan: the header size, rounded up to the block
  size when that is non-zero.
\<close>

definition seek_start :: "BlobFileIterator \<Rightarrow> u64" where
  "seek_start s =
     (if block_size s \<noteq> 0 then Roundup (header_size s) (block_size s) else header_size s)"

text \<open>
  What \<^verbatim>\<open>IterateForPrev\<close> steps over at a slot: the record header plus the decoded
  payload length, rounded up to the block size when that is non-zero. An iterator is
  stuck when its block size is 0 and the record header at its cursor, inside the record
  region, decodes to payload length 0.
\<close>

fun decoded_size :: "slot \<Rightarrow> u32" where
  "decoded_size (Live n r) = n"
| "decoded_size Hole = 0"


definition stuck :: "BlobFileIterator \<Rightarrow> bool" where
  "stuck s = (block_size s = 0 \<and> iterate_offset s < end_of_blob_record s \<and>
              read_record_header (file_reader s) (iterate_offset s) = (OK, 0))"

section \<open>Ordered merges\<close>

text \<open>
  A comparator orders keys when it is total and transitive as a three-way comparison;
  \<open>key_le\<close> is the order it induces on records. \<open>child_records\<close> are the records a child
  still has to give, from its current position on. The invariants relate the merge
  iterator's queue to its children: the queue holds exactly the valid children other
  than the current one, and the current child's key is at most every queued key.
\<close>

definition comparator_ok :: "(Slice \<Rightarrow> Slice \<Rightarrow> int) \<Rightarrow> bool" where
  "comparator_ok comparator =
     ((\<forall>a b. comparator a b \<le> 0 \<or> comparator b a \<le> 0) \<and>
      (\<forall>a b c. comparator a b \<le> 0 \<and> comparator b c \<le> 0 \<longrightarrow> comparator a c \<le> 0))"

definition key_le :: "(Slice \<Rightarrow> Slice \<Rightarrow> int) \<Rightarrow> BlobRecord \<Rightarrow> BlobRecord \<Rightarrow> bool" where
  "key_le comparator r1 r2 = (comparator (key r1) (key r2) \<le> 0)"

definition child_records :: "titan_consts \<Rightarrow> BlobFileIterator \<Rightarrow> BlobRecord list" where
  "child_records c it = (case drain c it of None \<Rightarrow> [] | Some (rs, t) \<Rightarrow> map snd rs)"

definition merge_inv :: "titan_consts \<Rightarrow> BlobFileMergeIterator \<Rightarrow> bool" where
  "merge_inv c m =
     (let its = blob_file_iterators m; h = min_heap m in
      distinct h \<and>
      (\<forall>j \<in> set h. j < length its \<and> Valid (its ! j)) \<and>
      (\<forall>j < length its. drain c (its ! j) \<noteq> None) \<and>
      (case current m of
         None \<Rightarrow> h = [] \<and> (\<forall>j < length its. \<not> Valid (its ! j))
       | Some i \<Rightarrow>
           merge_status m = OK \<and> i < length its \<and> i \<notin> set h \<and> Valid (its ! i) \<and>
           (\<forall>j < length its. j \<notin> set h \<and> j \<noteq> i \<longrightarrow> \<not> Valid (its ! j))))"

definition merge_sorted_inv ::
  "titan_consts \<Rightarrow> (Slice \<Rightarrow> Slice \<Rightarrow> int) \<Rightarrow> BlobFileMergeIterator \<Rightarrow> bool" where
  "merge_sorted_inv c comparator m =
     (let its = blob_file_iterators m in
      comparator_ok comparator \<and>
      (\<forall>j < length its. sorted_wrt (key_le comparator) (child_records c (its ! j))) \<and>
      (\<forall>i. current m = Some i \<longrightarrow>
         (\<forall>j \<in> set (min_heap m).
            key_le comparator (cur_blob_record (its ! i)) (cur_blob_record (its ! j)))))"

definition heap_inv :: "titan_consts \<Rightarrow> BlobFileMergeIterator \<Rightarrow> bool" where
  "heap_inv c m =
     (let its = blob_file_iterators m; h = min_heap m in
      distinct h \<and>
      (\<forall>j \<in> set h. j < length its \<and> Valid (its ! j)) \<and>
      (\<forall>j < length its. drain c (its ! j) \<noteq> None) \<and>
      (\<forall>j < length its. j \<notin> set h \<longrightarrow> \<not> Valid (its ! j)) \<and>
      merge_status m = OK)"

section \<open>Example inputs\<close>

text \<open>
  The picker scenarios of the specification: a discardable-ratio threshold of 0.5, a
  maximum batch of 1,000,000 bytes, a minimum batch of 100,000 bytes, a target file size
  of 5,000,000 bytes and a small-file threshold of 100,000 bytes.
\<close>

definition scenario_opts :: TitanCFOptions where
  "scenario_opts =
     \<lparr>min_blob_size = 0, blob_run_mode = kRunNormal, blob_file_discardable_ratio = 1 / 2,
      max_gc_batch_size = 1000000, min_gc_batch_size = 100000,
      blob_file_target_size = 5000000, merge_small_file_threshold = 100000\<rparr>"

definition fallback_opts :: TitanCFOptions where
  "fallback_opts = scenario_opts\<lparr>blob_run_mode := kFallback\<rparr>"

definition meta :: "u64 \<Rightarrow> u64 \<Rightarrow> u64 \<Rightarrow> FileState \<Rightarrow> real \<Rightarrow> BlobFileMeta" where
  "meta n sz live fs r =
     \<lparr>file_number = n, file_size = sz, live_data_size = live, file_state = fs,
      GetDiscardableRatio = r\<rparr>"

text \<open>
  Scenario A: file 1 (score 0.1, \<open>kNormal\<close>) is a punch-hole candidate; file 3 is being
  collected; file 2 has reached the threshold.
\<close>

definition storage_A :: BlobStorage where
  "storage_A =
     \<lparr>punch_hole_score =
        [\<lparr>score_file_number = 1, score = 1 / 10\<rparr>,
         \<lparr>score_file_number = 3, score = 2 / 10\<rparr>,
         \<lparr>score_file_number = 2, score = 6 / 10\<rparr>],
      gc_score = [],
      FindFile = (\<lambda>n. if n = 1 then Some (meta 1 4096 1000 kNormal (1 / 10))
                       else if n = 2 then Some (meta 2 4096 1000 kNormal (6 / 10))
                       else if n = 3 then Some (meta 3 4096 1000 kBeingGC (2 / 10))
                       else None)\<rparr>"

definition state_A :: pick_state where
  "state_A =
     \<lparr>blob_files = [meta 1 4096 1000 kNormal (1 / 10)], batch_size = 4096,
      estimate_output_size = 0, stop_picking = False, maybe_continue_next_time = False,
      next_gc_size = 0, info_log = [NoNeedGC 3], ticks = []\<rparr>"

text \<open>
  Scenario C: one eligible file of 50,000 bytes with discard ratio 0.2. The same storage
  with a score of exactly 1.0 serves the fallback scenario.
\<close>

definition storage_C :: "real \<Rightarrow> BlobStorage" where
  "storage_C sc =
     \<lparr>punch_hole_score = [],
      gc_score = [\<lparr>score_file_number = 5, score = sc\<rparr>],
      FindFile = (\<lambda>n. if n = 5 then Some (meta 5 50000 40000 kNormal (2 / 10)) else None)\<rparr>"

definition state_C :: pick_state where
  "state_C =
     \<lparr>blob_files = [meta 5 50000 40000 kNormal (2 / 10)], batch_size = 50000,
      estimate_output_size = 40000, stop_picking = False, maybe_continue_next_time = False,
      next_gc_size = 0, info_log = [], ticks = [TITAN_GC_SMALL_FILE]\<rparr>"

text \<open>
  A punch-hole candidate whose file has been retired: \<^verbatim>\<open>FindFile\<close> resolves to null.
\<close>

definition storage_absent :: BlobStorage where
  "storage_absent =
     \<lparr>punch_hole_score = [\<lparr>score_file_number = 7, score = 1 / 10\<rparr>],
      gc_score = [],
      FindFile = (\<lambda>n. None)\<rparr>"

text \<open>
  A blob file of 96 bytes with Titan's format constants (a 9-byte record header, a
  32-byte footer, a 5-byte block trailer): a 16-byte header announcing a block size of
  16 and no dictionary, a record of 3 payload bytes at offset 16, a hole-punched block
  at offset 32, a record of 5 payload bytes at offset 48, and the footer at offset 64.
  The two records and the outcome of decoding the footer are parameters.
\<close>

definition titan_c :: titan_consts where
  "titan_c =
     \<lparr>kRecordHeaderSize = 9, kFooterEncodedLength = 32, kBlockTrailerSize = 5,
      kHasUncompressionDictionary = 1, kDefaultPageSize = 4096, kMinReadaheadSize = 4096,
      kMaxReadaheadSize = 262144\<rparr>"

definition rec_A :: BlobRecord where "rec_A = \<lparr>key = ''a'', val = ''1''\<rparr>"
definition rec_B :: BlobRecord where "rec_B = \<lparr>key = ''b'', val = ''2''\<rparr>"
definition rec_C :: BlobRecord where "rec_C = \<lparr>key = ''c'', val = ''3''\<rparr>"

definition example_file :: "BlobRecord \<Rightarrow> BlobRecord \<Rightarrow> Status \<Rightarrow> blob_file" where
  "example_file r1 r2 footer_status =
     \<lparr>read_header = OK,
      decode_header = (OK, \<lparr>hdr_size = 16, flags = 0, hdr_block_size = 16\<rparr>),
      read_footer = (\<lambda>off. if off = 64 then OK else IOError),
      decode_footer = (\<lambda>off. (footer_status, \<lparr>meta_index_handle = None\<rparr>)),
      init_uncompression_dict = (\<lambda>ft. (Corruption, 0)),
      read_record_header =
        (\<lambda>off. if off = 16 then (OK, 3) else if off = 32 then (OK, 0)
              else if off = 48 then (OK, 5) else (IOError, 0)),
      decode_record_header =
        (\<lambda>off. if off = 16 then (OK, 3) else if off = 32 then (OK, 0)
              else if off = 48 then (OK, 5) else (Corruption, 0)),
      read_record =
        (\<lambda>off n. if off = 25 \<and> n = 3 \<or> off = 57 \<and> n = 5 then OK else IOError),
      decode_record =
        (\<lambda>off n. if off = 25 \<and> n = 3 then (OK, r1)
                else if off = 57 \<and> n = 5 then (OK, r2)
                else (Corruption, \<lparr>key = [], val = []\<rparr>))\<rparr>"

definition example_iter :: "BlobRecord \<Rightarrow> BlobRecord \<Rightarrow> Status \<Rightarrow> BlobFileIterator" where
  "example_iter r1 r2 footer_status =
     new_BlobFileIterator titan_c (example_file r1 r2 footer_status) 96 scenario_opts"

definition example_slots :: "BlobRecord \<Rightarrow> BlobRecord \<Rightarrow> slot list" where
  "example_slots r1 r2 = [Live 3 r1, Hole, Live 5 r2]"

definition iter_1 :: BlobFileIterator where
  "iter_1 = example_iter rec_A rec_B OK"

text \<open>
  The same file behind a reader whose first read fails, and the initialised iterator
  placed on the hole-punched block with a chosen block size.
\<close>

definition broken_iter :: BlobFileIterator where
  "broken_iter =
     new_BlobFileIterator titan_c ((example_file rec_A rec_B OK)\<lparr>read_header := IOError\<rparr>) 96
       scenario_opts"

definition at_hole :: "u64 \<Rightarrow> BlobFileIterator" where
  "at_hole bs = (snd (Init titan_c iter_1))\<lparr>block_size := bs, iterate_offset := 32\<rparr>"

text \<open>
  The initialised iterator as \<open>IterateForPrev 64\<close> leaves it: the status is
  \<open>InvalidArgument\<close> and the cursor is 64.
\<close>

definition after_bad_seek :: BlobFileIterator where
  "after_bad_seek =
     (snd (Init titan_c iter_1))\<lparr>status := InvalidArgument, iterate_offset := 64\<rparr>"

text \<open>What a caller can see of an iterator: status, validity, and the current record.\<close>

definition observe :: "BlobFileIterator \<Rightarrow> Status \<times> bool \<times> u64 \<times> BlobRecord" where
  "observe s = (status s, Valid s, cur_record_offset s, cur_blob_record s)"

text \<open>The bytewise comparator, RocksDB's default, as a three-way comparison.\<close>

fun bytewise_compare :: "Slice \<Rightarrow> Slice \<Rightarrow> int" where
  "bytewise_compare [] [] = 0"
| "bytewise_compare [] (y # ys) = - 1"
| "bytewise_compare (x # xs) [] = 1"
| "bytewise_compare (x # xs) (y # ys) =
     (if (of_char x :: nat) < of_char y then - 1
      else if (of_char y :: nat) < of_char x then 1
      else bytewise_compare xs ys)"

section \<open>The candidate picker: theorems\<close>

lemma punch_hole_loop_takeWhile:
  "punch_hole_loop opts storage scores st =
   punch_hole_loop opts storage
     (takeWhile (\<lambda>sc. score sc < blob_file_discardable_ratio opts) scores) st"
  by (induction scores arbitrary: st) (auto simp: Let_def split: sum.splits)

lemma punch_hole_loop_gc_score:
  "punch_hole_loop opts (storage\<lparr>gc_score := g\<rparr>) scores st =
   punch_hole_loop opts storage scores st"
  by (induction scores arbitrary: st) (auto simp: Let_def split: sum.splits)

text \<open>
  C7. The first pass reads the punch-hole list only up to, and excluding, the first
  candidate whose score reaches \<open>blob_file_discardable_ratio\<close>: it computes the same on
  that prefix. When it ends with a non-empty batch, \<open>PickBlobGC\<close> returns the punch-hole
  plan built from that batch whatever the GC-priority list holds (the second pass is
  not run); when it ends with an empty batch, a returned plan is never a punch-hole
  plan. So one call gives a punch-hole plan or a merge plan, not both.
\<close>

theorem picker_punch_hole_first:
  assumes "punch_hole_loop opts storage (punch_hole_score storage) initial_pick_state = Inr st1"
  shows "punch_hole_loop opts storage
           (takeWhile (\<lambda>sc. score sc < blob_file_discardable_ratio opts)
              (punch_hole_score storage))
           initial_pick_state = Inr st1
       \<and> (blob_files st1 \<noteq> [] \<longrightarrow>
            (\<forall>g. PickBlobGC opts cf_id (storage\<lparr>gc_score := g\<rparr>) =
               Inr (Some \<lparr>inputs = blob_files st1, gc_cf_options = opts,
                          trigger_next = maybe_continue_next_time st1, gc_cf_id = cf_id,
                          punch_hole = True\<rparr>, st1)))
       \<and> (blob_files st1 = [] \<longrightarrow>
            (\<forall>plan st. PickBlobGC opts cf_id storage = Inr (Some plan, st) \<longrightarrow>
               \<not> punch_hole plan))"
proof (intro conjI impI allI)
  show "punch_hole_loop opts storage
           (takeWhile (\<lambda>sc. score sc < blob_file_discardable_ratio opts)
              (punch_hole_score storage))
           initial_pick_state = Inr st1"
    using assms
      punch_hole_loop_takeWhile[of opts storage "punch_hole_score storage" initial_pick_state]
    by simp
next
  fix g
  assume "blob_files st1 \<noteq> []"
  then show "PickBlobGC opts cf_id (storage\<lparr>gc_score := g\<rparr>) =
               Inr (Some \<lparr>inputs = blob_files st1, gc_cf_options = opts,
                          trigger_next = maybe_continue_next_time st1, gc_cf_id = cf_id,
                          punch_hole = True\<rparr>, st1)"
    using assms by (simp add: PickBlobGC_def punch_hole_loop_gc_score)
next
  fix plan st
  assume "blob_files st1 = []" and "PickBlobGC opts cf_id storage = Inr (Some plan, st)"
  then show "\<not> punch_hole plan"
    using assms by (auto simp: PickBlobGC_def Let_def split: sum.splits if_splits)
qed

lemma punch_hole_loop_A:
  "punch_hole_loop scenario_opts storage_A (punch_hole_score storage_A) initial_pick_state =
   Inr state_A"
  by (simp add: scenario_opts_def storage_A_def state_A_def initial_pick_state_def meta_def
      Let_def)

theorem picker_punch_hole_first_witness:
  "punch_hole_loop scenario_opts storage_A [\<lparr>score_file_number = 1, score = 1 / 10\<rparr>,
      \<lparr>score_file_number = 3, score = 2 / 10\<rparr>] initial_pick_state = Inr state_A
   \<and> blob_files state_A \<noteq> []
   \<and> PickBlobGC scenario_opts 0
       (storage_A\<lparr>gc_score := [\<lparr>score_file_number = 2, score = 9 / 10\<rparr>]\<rparr>) =
     Inr (Some \<lparr>inputs = [meta 1 4096 1000 kNormal (1 / 10)], gc_cf_options = scenario_opts,
                trigger_next = False, gc_cf_id = 0, punch_hole = True\<rparr>, state_A)"
proof -
  have ne: "blob_files state_A \<noteq> []"
    by (simp add: state_A_def)
  have tw: "takeWhile (\<lambda>sc. score sc < blob_file_discardable_ratio scenario_opts)
              (punch_hole_score storage_A) =
            [\<lparr>score_file_number = 1, score = 1 / 10\<rparr>, \<lparr>score_file_number = 3, score = 2 / 10\<rparr>]"
    by (simp add: scenario_opts_def storage_A_def)
  from picker_punch_hole_first[OF punch_hole_loop_A, of 0] ne tw show ?thesis
    by (simp add: state_A_def)
qed

text \<open>
  C8. When the first pass selected nothing and the second pass ends in state \<open>st2\<close>:
  no plan is returned when the batch is empty; outside fallback mode no plan is
  returned when both the cumulative size and the cumulative live-data estimate are
  below \<open>min_gc_batch_size\<close> and \<open>blob_file_target_size\<close>, and none when the batch is one
  file of at most \<open>merge_small_file_threshold\<close> bytes whose discardable ratio is below
  \<open>blob_file_discardable_ratio\<close>; in fallback mode a non-empty batch always gives the
  merge plan. And no call at all returns a plan without files.
\<close>

theorem picker_admission:
  assumes "punch_hole_loop opts storage (punch_hole_score storage) initial_pick_state = Inr st1"
    and "blob_files st1 = []"
    and "gc_loop opts storage (gc_score storage) st1 = Inr st2"
  shows "(blob_files st2 = [] \<longrightarrow> (\<exists>st. PickBlobGC opts cf_id storage = Inr (None, st)))
       \<and> (blob_run_mode opts \<noteq> kFallback \<and> batch_size st2 < min_gc_batch_size opts \<and>
            estimate_output_size st2 < blob_file_target_size opts \<longrightarrow>
            (\<exists>st. PickBlobGC opts cf_id storage = Inr (None, st)))
       \<and> (blob_run_mode opts \<noteq> kFallback \<and>
            (\<exists>bf. blob_files st2 = [bf] \<and> file_size bf \<le> merge_small_file_threshold opts \<and>
                  GetDiscardableRatio bf < blob_file_discardable_ratio opts) \<longrightarrow>
            (\<exists>st. PickBlobGC opts cf_id storage = Inr (None, st)))
       \<and> (blob_run_mode opts = kFallback \<and> blob_files st2 \<noteq> [] \<longrightarrow>
            (\<exists>st. PickBlobGC opts cf_id storage =
               Inr (Some \<lparr>inputs = blob_files st2, gc_cf_options = opts,
                          trigger_next = maybe_continue_next_time st2, gc_cf_id = cf_id,
                          punch_hole = False\<rparr>, st)))
       \<and> (\<forall>opts' cf_id' storage' plan st.
            PickBlobGC opts' cf_id' storage' = Inr (Some plan, st) \<longrightarrow> inputs plan \<noteq> [])"
proof (intro conjI impI allI)
  assume "blob_files st2 = []"
  then show "\<exists>st. PickBlobGC opts cf_id storage = Inr (None, st)"
    using assms by (simp add: PickBlobGC_def Let_def)
next
  assume "blob_run_mode opts \<noteq> kFallback \<and> batch_size st2 < min_gc_batch_size opts \<and>
            estimate_output_size st2 < blob_file_target_size opts"
  then show "\<exists>st. PickBlobGC opts cf_id storage = Inr (None, st)"
    using assms by (simp add: PickBlobGC_def Let_def)
next
  assume "blob_run_mode opts \<noteq> kFallback \<and>
            (\<exists>bf. blob_files st2 = [bf] \<and> file_size bf \<le> merge_small_file_threshold opts \<and>
                  GetDiscardableRatio bf < blob_file_discardable_ratio opts)"
  then show "\<exists>st. PickBlobGC opts cf_id storage = Inr (None, st)"
    using assms by (auto simp: PickBlobGC_def Let_def)
next
  assume "blob_run_mode opts = kFallback \<and> blob_files st2 \<noteq> []"
  then show "\<exists>st. PickBlobGC opts cf_id storage =
               Inr (Some \<lparr>inputs = blob_files st2, gc_cf_options = opts,
                          trigger_next = maybe_continue_next_time st2, gc_cf_id = cf_id,
                          punch_hole = False\<rparr>, st)"
    using assms by (simp add: PickBlobGC_def Let_def)
next
  fix opts' cf_id' storage' plan st
  assume "PickBlobGC opts' cf_id' storage' = Inr (Some plan, st)"
  then show "inputs plan \<noteq> []"
    by (auto simp: PickBlobGC_def Let_def split: sum.splits if_splits)
qed

lemma gc_loop_C:
  "gc_loop scenario_opts (storage_C (2 / 10)) (gc_score (storage_C (2 / 10))) initial_pick_state =
   Inr state_C"
  by (simp add: scenario_opts_def storage_C_def state_C_def initial_pick_state_def meta_def
      Let_def)

lemma gc_loop_fallback:
  "gc_loop fallback_opts (storage_C 1) (gc_score (storage_C 1)) initial_pick_state =
   Inr state_C"
  by (simp add: fallback_opts_def scenario_opts_def storage_C_def state_C_def
      initial_pick_state_def meta_def Let_def double_epsilon_def)

theorem picker_admission_witness:
  "(\<exists>st. PickBlobGC scenario_opts 0 (storage_C (2 / 10)) = Inr (None, st))
   \<and> (\<exists>st. PickBlobGC fallback_opts 0 (storage_C 1) =
        Inr (Some \<lparr>inputs = [meta 5 50000 40000 kNormal (2 / 10)],
                   gc_cf_options = fallback_opts, trigger_next = False, gc_cf_id = 0,
                   punch_hole = False\<rparr>, st))"
proof -
  have p1: "punch_hole_loop scenario_opts (storage_C (2 / 10))
              (punch_hole_score (storage_C (2 / 10))) initial_pick_state = Inr initial_pick_state"
    by (simp add: storage_C_def)
  have p2: "punch_hole_loop fallback_opts (storage_C 1)
              (punch_hole_score (storage_C 1)) initial_pick_state = Inr initial_pick_state"
    by (simp add: storage_C_def)
  have e: "blob_files initial_pick_state = []"
    by (simp add: initial_pick_state_def)
  have small: "blob_run_mode scenario_opts \<noteq> kFallback \<and>
        (\<exists>bf. blob_files state_C = [bf] \<and> file_size bf \<le> merge_small_file_threshold scenario_opts \<and>
              GetDiscardableRatio bf < blob_file_discardable_ratio scenario_opts)"
    by (simp add: scenario_opts_def state_C_def meta_def)
  have fb: "blob_run_mode fallback_opts = kFallback \<and> blob_files state_C \<noteq> []"
    by (simp add: fallback_opts_def state_C_def)
  from picker_admission[OF p1 e gc_loop_C, of 0] small
  have a: "\<exists>st. PickBlobGC scenario_opts 0 (storage_C (2 / 10)) = Inr (None, st)"
    by blast
  from picker_admission[OF p2 e gc_loop_fallback, of 0] fb
  have b: "\<exists>st. PickBlobGC fallback_opts 0 (storage_C 1) =
             Inr (Some \<lparr>inputs = blob_files state_C, gc_cf_options = fallback_opts,
                        trigger_next = maybe_continue_next_time state_C, gc_cf_id = 0,
                        punch_hole = False\<rparr>, st)"
    by blast
  from a b show ?thesis
    by (simp add: state_C_def)
qed

text \<open>
  C9. A candidate whose metadata is in a state other than \<open>kNormal\<close> is skipped with a
  log entry (file 3 of scenario A, above). A candidate whose lookup resolves to null
  is not: \<open>CheckBlobFile\<close> rejects it, and the log statement of the skip branch then
  reads \<^verbatim>\<open>blob_file->file_number()\<close> through the null pointer.
\<close>

theorem picker_absent_candidate_dereferences_null:
  "PickBlobGC scenario_opts 0 storage_absent = Inl NullDereference"
  by (simp add: PickBlobGC_def scenario_opts_def storage_absent_def initial_pick_state_def
      Let_def)

section \<open>The blob file iterator: theorems\<close>

subsection \<open>The read-ahead window\<close>

text \<open>
  With sane constants the doubling loop returns, and so does the read-ahead step.
\<close>

lemma unat_double:
  fixes x :: u64
  assumes "unat x < 2 ^ 63"
  shows "unat (push_bit 1 x) = 2 * unat x"
proof -
  have "unat x * unat (2 :: u64) < 2 ^ LENGTH(64)"
    using assms by simp
  then have "unat (x * 2) = unat x * unat (2 :: u64)"
    by (simp only: unat_mult_lem)
  then show ?thesis
    by (simp add: push_bit_eq_mult)
qed

lemma grow_readahead_Some:
  fixes rs kmax :: u64
  assumes "rs \<noteq> 0" and "kmax \<le> 2 ^ 63"
  shows "\<exists>rs'. grow_readahead kmax rend mb rs = Some rs' \<and> rs' \<noteq> 0 \<and>
               (rs' = rs \<or> unat rs' < 2 * unat kmax)"
  using assms(1)
proof (induction "unat kmax - unat rs" arbitrary: rs rule: less_induct)
  case less
  show ?case
  proof (cases "rend + rs \<le> mb \<and> rs < kmax")
    case False
    then show ?thesis
      using less.prems by (subst grow_readahead.simps) auto
  next
    case True
    have k: "unat kmax \<le> 2 ^ 63"
      using assms(2) by (simp add: word_le_nat_alt)
    have lt: "unat rs < unat kmax"
      using True by (simp add: word_less_nat_alt)
    have pos: "0 < unat rs"
      using less.prems by (simp add: unat_gt_0)
    have d: "unat (push_bit 1 rs) = 2 * unat rs"
      using lt k by (intro unat_double) simp
    have ne: "push_bit 1 rs \<noteq> 0"
      using d pos by (metis mult_eq_0_iff not_less_zero unat_0 zero_neq_numeral)
    have "unat kmax - unat (push_bit 1 rs) < unat kmax - unat rs"
      using d lt pos by simp
    from less.hyps[OF this ne] obtain rs' where
      r: "grow_readahead kmax rend mb (push_bit 1 rs) = Some rs'" "rs' \<noteq> 0"
         "rs' = push_bit 1 rs \<or> unat rs' < 2 * unat kmax"
      by blast
    have "unat rs' < 2 * unat kmax"
      using r(3) d lt by auto
    with r(1,2) True show ?thesis
      by (subst grow_readahead.simps) auto
  qed
qed

lemma readahead_Some:
  assumes "consts_ok c" and "readahead_ok c s"
  shows "\<exists>b e z. readahead c s =
           Some (s\<lparr>readahead_begin_offset := b, readahead_end_offset := e, readahead_size := z\<rparr>) \<and>
           z \<noteq> 0 \<and> z \<le> kMaxReadaheadSize c"
proof -
  define s1 where "s1 = (if readahead_begin_offset s > iterate_offset s \<or>
                   readahead_end_offset s < iterate_offset s
                then
                  let b = iterate_offset s - (iterate_offset s AND (kDefaultPageSize c - 1))
                  in s\<lparr>readahead_begin_offset := b, readahead_end_offset := b,
                       readahead_size := kMinReadaheadSize c\<rparr>
                else s)"
  have s1: "\<exists>b e z. s1 = s\<lparr>readahead_begin_offset := b, readahead_end_offset := e, readahead_size := z\<rparr> \<and>
             z \<noteq> 0 \<and> z \<le> kMaxReadaheadSize c"
  proof (cases "readahead_begin_offset s > iterate_offset s \<or> readahead_end_offset s < iterate_offset s")
    case True
    then show ?thesis
      using assms(1) unfolding s1_def consts_ok_def Let_def by auto
  next
    case False
    then have "s1 = s" by (simp add: s1_def)
    moreover have "s = s\<lparr>readahead_begin_offset := readahead_begin_offset s,
        readahead_end_offset := readahead_end_offset s, readahead_size := readahead_size s\<rparr>"
      by simp
    ultimately show ?thesis
      using assms(2) unfolding readahead_ok_def by metis
  qed
  then obtain b e z where
    s1e: "s1 = s\<lparr>readahead_begin_offset := b, readahead_end_offset := e, readahead_size := z\<rparr>"
    and z: "z \<noteq> 0" "z \<le> kMaxReadaheadSize c"
    by blast
  define mb where "mb = iterate_offset s1 + kRecordHeaderSize c + min_blob_size (titan_cf_options s1)"
  have kmax: "kMaxReadaheadSize c \<le> 2 ^ 62" and kmax0: "kMaxReadaheadSize c \<noteq> 0"
    using assms(1) z unfolding consts_ok_def by auto
  have kmax63: "kMaxReadaheadSize c \<le> 2 ^ 63"
    using kmax by (simp add: word_le_nat_alt)
  have ku: "unat (kMaxReadaheadSize c) \<le> 2 ^ 62"
    using kmax by (simp add: word_le_nat_alt)
  have unf: "readahead c s =
      (if readahead_end_offset s1 \<le> mb then
        (case grow_readahead (kMaxReadaheadSize c) (readahead_end_offset s1) mb
                (readahead_size s1) of
           None \<Rightarrow> None
         | Some rsize \<Rightarrow>
             Some (s1\<lparr>readahead_end_offset := readahead_end_offset s1 + rsize,
                      readahead_size := min (kMaxReadaheadSize c) (push_bit 1 rsize)\<rparr>))
      else Some s1)"
    unfolding readahead_def s1_def mb_def Let_def by (rule refl)
  show ?thesis
  proof (cases "readahead_end_offset s1 \<le> mb")
    case False
    then have "readahead c s = Some s1"
      by (simp add: unf)
    with s1e z show ?thesis by blast
  next
    case True
    from grow_readahead_Some[OF z(1) kmax63, of "readahead_end_offset s1" mb]
    obtain rs' where g: "grow_readahead (kMaxReadaheadSize c) (readahead_end_offset s1) mb z = Some rs'"
      and rs': "rs' \<noteq> 0" "rs' = z \<or> unat rs' < 2 * unat (kMaxReadaheadSize c)"
      by blast
    have "unat rs' < 2 ^ 63"
      using rs'(2) z(2) ku kmax0 by (auto simp: word_le_nat_alt)
    then have d: "unat (push_bit 1 rs') = 2 * unat rs'"
      by (rule unat_double)
    have "push_bit 1 rs' \<noteq> 0"
      using d rs'(1) by (metis mult_eq_0_iff unat_eq_0 zero_neq_numeral)
    then have m: "min (kMaxReadaheadSize c) (push_bit 1 rs') \<noteq> 0"
      using kmax0 by (simp add: min_def)
    have rz: "readahead_size s1 = z" and re: "readahead_end_offset s1 = e"
      using s1e by simp_all
    have "readahead c s = Some (s1\<lparr>readahead_end_offset := readahead_end_offset s1 + rs',
                      readahead_size := min (kMaxReadaheadSize c) (push_bit 1 rs')\<rparr>)"
      using True g rz by (simp add: unf)
    then have "readahead c s = Some (s\<lparr>readahead_begin_offset := b,
         readahead_end_offset := e + rs',
         readahead_size := min (kMaxReadaheadSize c) (push_bit 1 rs')\<rparr>)"
      using s1e by simp
    with m show ?thesis
      by (metis min.cobounded1)
  qed
qed

subsection \<open>Offsets as machine words\<close>

text \<open>
  \<^verbatim>\<open>Roundup\<close> on words is rounding up on numbers as long as the result stays below
  \<open>2 ^ 64\<close>; the end of a slot lies after its start.
\<close>

lemma rup_ge: "0 < b \<Longrightarrow> x \<le> ((x + b - 1) div b) * (b::nat)"
proof -
  assume b: "0 < b"
  have "(x + b - 1) mod b < b" using b by simp
  moreover have "((x + b - 1) div b) * b + (x + b - 1) mod b = x + b - 1" by simp
  ultimately show ?thesis by linarith
qed

lemma rup_le: "((x + b - 1) div b) * (b::nat) \<le> x + b - 1"
  by (metis div_mult_mod_eq le_add1)

lemma rup_dvd: "b dvd ((x + b - 1) div b) * (b::nat)"
  by simp


lemma unat_Roundup:
  fixes x y :: u64
  assumes "y \<noteq> 0" and "unat x + unat y < 2 ^ 64"
  shows "unat (Roundup x y) = ((unat x + unat y - 1) div unat y) * unat y"
proof -
  have y1: "unat (y - 1) = unat y - 1"
    using assms(1) by (simp add: unat_minus_one)
  have ypos: "0 < unat y"
    using assms(1) by (simp add: unat_gt_0)
  have "unat x + unat (y - 1) < 2 ^ LENGTH(64)"
    using assms(2) y1 by simp
  then have a: "unat (x + (y - 1)) = unat x + unat (y - 1)"
    by (simp only: unat_add_lem)
  have s: "unat (x + y - 1) = unat x + unat y - 1"
    using a y1 ypos by (simp add: algebra_simps)
  have d: "unat ((x + y - 1) div y) = (unat x + unat y - 1) div unat y"
    by (simp add: unat_div s)
  have "(unat x + unat y - 1) div unat y * unat y \<le> unat x + unat y - 1"
    by (rule rup_le)
  also have "\<dots> < 2 ^ 64"
    using assms(2) by arith
  finally have "unat ((x + y - 1) div y) * unat y < 2 ^ LENGTH(64)"
    by (simp add: d)
  then have "unat ((x + y - 1) div y * y) = unat ((x + y - 1) div y) * unat y"
    by (simp only: unat_mult_lem)
  then show ?thesis
    by (simp add: Roundup_def d)
qed

lemma unat_add_small:
  fixes x y :: u64
  assumes "unat x + unat y < 2 ^ 64"
  shows "unat (x + y) = unat x + unat y"
proof -
  have "unat x + unat y < 2 ^ LENGTH(64)" using assms by simp
  then show ?thesis by (simp only: unat_add_lem)
qed

lemma unat_ucast_32_64: "unat (ucast (n :: u32) :: u64) = unat n"
proof -
  have "unat n < 2 ^ 32"
    using unsigned_less[of n, where ?'a = nat] by simp
  then have "unat n < 2 ^ 64"
    by (rule less_le_trans) simp
  then show ?thesis
    by (simp add: unsigned_ucast_eq take_bit_nat_eq_self)
qed

lemma slot_end_gt: "slot_ok c f bs off sl \<Longrightarrow> off < slot_end c bs off sl"
proof (cases sl)
  case (Live n r)
  assume "slot_ok c f bs off sl"
  then have "0 < unat n" using Live by (simp add: unat_gt_0)
  then have "off < off + unat (kRecordHeaderSize c) + unat n" by simp
  moreover have "bs \<noteq> 0 \<Longrightarrow> off + unat (kRecordHeaderSize c) + unat n \<le>
      ((off + unat (kRecordHeaderSize c) + unat n + bs - 1) div bs) * bs"
    by (rule rup_ge) simp
  ultimately show ?thesis using Live by (auto simp: Let_def)
next
  case Hole
  assume "slot_ok c f bs off sl"
  then show ?thesis using Hole by simp
qed

lemma slots_at_le: "slots_at c f bs off ss e \<Longrightarrow> off \<le> e"
proof (induction ss arbitrary: off)
  case Nil
  then show ?case by simp
next
  case (Cons sl ss)
  then have "slot_end c bs off sl \<le> e" by simp
  moreover from Cons.prems have "slot_ok c f bs off sl" by simp
  then have "off < slot_end c bs off sl" by (rule slot_end_gt)
  ultimately show ?case by simp
qed

subsection \<open>One step of the scan\<close>


lemma GetBlobRecord_hole:
  assumes "read_record_header (file_reader s) (iterate_offset s) = (OK, 0)"
  shows "GetBlobRecord c s = (False, s\<lparr>status := OK\<rparr>)"
  by (simp add: GetBlobRecord_def assms Let_def)

lemma GetBlobRecord_live:
  assumes "slot_ok c (file_reader s) bs (unat (iterate_offset s)) (Live n r)"
  shows "GetBlobRecord c s =
    (True, s\<lparr>status := OK, cur_blob_record := r, cur_record_offset := iterate_offset s,
             cur_record_size := kRecordHeaderSize c + ucast n,
             iterate_offset :=
               (if block_size s \<noteq> 0
                then Roundup (iterate_offset s + (kRecordHeaderSize c + ucast n)) (block_size s)
                else iterate_offset s + (kRecordHeaderSize c + ucast n)),
             valid := True\<rparr>)"
  using assms by (simp add: GetBlobRecord_def Let_def)

lemma PrefetchAndGet_end:
  assumes "\<not> iterate_offset s < end_of_blob_record s"
  shows "PrefetchAndGet c s = Some (s\<lparr>valid := False\<rparr>)"
  using assms by (subst PrefetchAndGet.simps) simp

lemma PrefetchAndGet_hole_step:
  assumes "consts_ok c" and "readahead_ok c s"
    and "iterate_offset s < end_of_blob_record s"
    and "read_record_header (file_reader s) (iterate_offset s) = (OK, 0)"
  shows "\<exists>s1. PrefetchAndGet c s = PrefetchAndGet c s1 \<and> same_file s s1 \<and> readahead_ok c s1 \<and>
           status s1 = OK \<and> iterate_offset s1 = iterate_offset s + block_size s \<and>
           valid s1 = valid s \<and> cur_blob_record s1 = cur_blob_record s \<and>
           cur_record_offset s1 = cur_record_offset s \<and> cur_record_size s1 = cur_record_size s"
proof -
  from readahead_Some[OF assms(1,2)] obtain b e z where
    ra: "readahead c s =
           Some (s\<lparr>readahead_begin_offset := b, readahead_end_offset := e, readahead_size := z\<rparr>)"
    and z: "z \<noteq> 0" "z \<le> kMaxReadaheadSize c"
    by blast
  define sa where "sa = s\<lparr>readahead_begin_offset := b, readahead_end_offset := e, readahead_size := z\<rparr>"
  have g: "GetBlobRecord c sa = (False, sa\<lparr>status := OK\<rparr>)"
    by (rule GetBlobRecord_hole) (simp add: sa_def assms(4))
  define s3 where "s3 = (if readahead_end_offset (sa\<lparr>status := OK\<rparr>) < iterate_offset (sa\<lparr>status := OK\<rparr>)
                            then sa\<lparr>status := OK\<rparr>\<lparr>readahead_end_offset := iterate_offset (sa\<lparr>status := OK\<rparr>)\<rparr>
                            else sa\<lparr>status := OK\<rparr>)"
  define s1 where "s1 = s3\<lparr>iterate_offset := iterate_offset s3 + block_size s3\<rparr>"
  have "PrefetchAndGet c s = PrefetchAndGet c s1"
    using assms(3) ra g
    by (subst PrefetchAndGet.simps) (simp add: sa_def[symmetric] s1_def s3_def Let_def)
  moreover have "same_file s s1" "readahead_ok c s1" "status s1 = OK"
    "iterate_offset s1 = iterate_offset s + block_size s" "valid s1 = valid s"
    "cur_blob_record s1 = cur_blob_record s" "cur_record_offset s1 = cur_record_offset s"
    "cur_record_size s1 = cur_record_size s"
    using z by (simp_all add: s1_def s3_def sa_def same_file_def readahead_ok_def)
  ultimately show ?thesis by blast
qed

lemma PrefetchAndGet_live_step:
  assumes "consts_ok c" and "readahead_ok c s"
    and "iterate_offset s < end_of_blob_record s"
    and "slot_ok c (file_reader s) bs (unat (iterate_offset s)) (Live n r)"
  shows "\<exists>s1. PrefetchAndGet c s = Some s1 \<and> same_file s s1 \<and> readahead_ok c s1 \<and>
           status s1 = OK \<and> valid s1 \<and> cur_blob_record s1 = r \<and>
           cur_record_offset s1 = iterate_offset s \<and>
           iterate_offset s1 =
             (if block_size s \<noteq> 0
              then Roundup (iterate_offset s + (kRecordHeaderSize c + ucast n)) (block_size s)
              else iterate_offset s + (kRecordHeaderSize c + ucast n))"
proof -
  from readahead_Some[OF assms(1,2)] obtain b e z where
    ra: "readahead c s =
           Some (s\<lparr>readahead_begin_offset := b, readahead_end_offset := e, readahead_size := z\<rparr>)"
    and z: "z \<noteq> 0" "z \<le> kMaxReadaheadSize c"
    by blast
  define sa where "sa = s\<lparr>readahead_begin_offset := b, readahead_end_offset := e, readahead_size := z\<rparr>"
  have sl: "slot_ok c (file_reader sa) bs (unat (iterate_offset sa)) (Live n r)"
    using assms(4) by (simp add: sa_def)
  define s2 where "s2 = sa\<lparr>status := OK, cur_blob_record := r, cur_record_offset := iterate_offset sa,
             cur_record_size := kRecordHeaderSize c + ucast n,
             iterate_offset :=
               (if block_size sa \<noteq> 0
                then Roundup (iterate_offset sa + (kRecordHeaderSize c + ucast n)) (block_size sa)
                else iterate_offset sa + (kRecordHeaderSize c + ucast n)),
             valid := True\<rparr>"
  have g: "GetBlobRecord c sa = (True, s2)"
    unfolding s2_def by (rule GetBlobRecord_live[OF sl])
  define s3 where "s3 = (if readahead_end_offset s2 < iterate_offset s2
                            then s2\<lparr>readahead_end_offset := iterate_offset s2\<rparr> else s2)"
  have "PrefetchAndGet c s = Some s3"
    using assms(3) ra g
    by (subst PrefetchAndGet.simps) (simp add: sa_def[symmetric] s3_def Let_def)
  moreover have "same_file s s3" "readahead_ok c s3" "status s3 = OK" "valid s3"
    "cur_blob_record s3 = r" "cur_record_offset s3 = iterate_offset s"
    "iterate_offset s3 =
             (if block_size s \<noteq> 0
              then Roundup (iterate_offset s + (kRecordHeaderSize c + ucast n)) (block_size s)
              else iterate_offset s + (kRecordHeaderSize c + ucast n))"
    using z by (simp_all add: s3_def s2_def sa_def same_file_def readahead_ok_def)
  ultimately show ?thesis by blast
qed

subsection \<open>The scan over a well-formed slot layout\<close>

text \<open>
  From the start of a slot, \<^verbatim>\<open>PrefetchAndGet\<close> returns on the first live record from
  there on, or at the boundary when there is none; the caller's loop collects the live
  records.
\<close>

lemma live_cursor:
  fixes w bsw :: u64
  assumes "slot_end c (unat bsw) (unat w) (Live n r) + unat bsw < 2 ^ 64"
  shows "unat (if bsw \<noteq> 0
               then Roundup (w + (kRecordHeaderSize c + ucast n)) bsw
               else w + (kRecordHeaderSize c + ucast n)) =
         slot_end c (unat bsw) (unat w) (Live n r)"
proof -
  define x where "x = unat w + unat (kRecordHeaderSize c) + unat n"
  have xle: "x \<le> slot_end c (unat bsw) (unat w) (Live n r)"
  proof (cases "unat bsw = 0")
    case True
    then show ?thesis by (simp add: x_def)
  next
    case False
    then have "x \<le> ((x + unat bsw - 1) div unat bsw) * unat bsw"
      by (intro rup_ge) simp
    then show ?thesis using False by (simp add: x_def Let_def)
  qed
  have xb: "x + unat bsw < 2 ^ 64"
    using xle assms by linarith
  have kn: "unat (kRecordHeaderSize c + ucast n) = unat (kRecordHeaderSize c) + unat n"
    using xb by (subst unat_add_small) (simp_all add: unat_ucast_32_64 x_def)
  have wkn: "unat (w + (kRecordHeaderSize c + ucast n)) = x"
    using xb kn by (subst unat_add_small) (simp_all add: x_def)
  show ?thesis
  proof (cases "bsw = 0")
    case True
    then show ?thesis using wkn by (simp add: x_def)
  next
    case False
    then have nz: "unat bsw \<noteq> 0" by (simp add: unat_eq_0)
    have "unat (Roundup (w + (kRecordHeaderSize c + ucast n)) bsw) =
          ((x + unat bsw - 1) div unat bsw) * unat bsw"
      using xb wkn by (subst unat_Roundup[OF False]) simp_all
    then show ?thesis using False nz by (simp add: x_def Let_def)
  qed
qed

lemma PrefetchAndGet_slots:
  assumes "consts_ok c" and "readahead_ok c s" and "status s = OK"
    and "slots_at c (file_reader s) (unat (block_size s)) (unat (iterate_offset s)) slots
           (unat (end_of_blob_record s))"
    and "unat (end_of_blob_record s) + unat (block_size s) < 2 ^ 64"
  shows "\<exists>s'. PrefetchAndGet c s = Some s' \<and> same_file s s' \<and> readahead_ok c s' \<and>
           status s' = OK \<and>
           (case first_live c (unat (block_size s)) (unat (iterate_offset s)) slots of
              None \<Rightarrow> \<not> valid s' \<and> iterate_offset s' = end_of_blob_record s
            | Some (off, r, off', ss') \<Rightarrow>
                valid s' \<and> cur_record_offset s' = of_nat off \<and> cur_blob_record s' = r \<and>
                unat (iterate_offset s') = off' \<and>
                slots_at c (file_reader s) (unat (block_size s)) off' ss'
                  (unat (end_of_blob_record s)))"
  using assms(2-)
proof (induction slots arbitrary: s)
  case Nil
  then have "iterate_offset s = end_of_blob_record s"
    by (simp add: word_unat_eq_iff)
  then have "PrefetchAndGet c s = Some (s\<lparr>valid := False\<rparr>)"
    by (intro PrefetchAndGet_end) simp
  then show ?case
    using Nil by (simp add: same_file_def readahead_ok_def \<open>iterate_offset s = end_of_blob_record s\<close>)
next
  case (Cons sl ss)
  let ?bs = "unat (block_size s)" and ?off = "unat (iterate_offset s)"
    and ?e = "unat (end_of_blob_record s)" and ?f = "file_reader s"
  from Cons.prems(3) have ok: "slot_ok c ?f ?bs ?off sl"
    and rest: "slots_at c ?f ?bs (slot_end c ?bs ?off sl) ss ?e"
    by simp_all
  have gt: "?off < slot_end c ?bs ?off sl"
    using ok by (rule slot_end_gt)
  have le: "slot_end c ?bs ?off sl \<le> ?e"
    using rest by (rule slots_at_le)
  have lt: "iterate_offset s < end_of_blob_record s"
    using gt le by (simp add: word_less_nat_alt)
  show ?case
  proof (cases sl)
    case Hole
    from ok Hole have hole: "read_record_header ?f (iterate_offset s) = (OK, 0)"
      by simp
    from PrefetchAndGet_hole_step[OF assms(1) Cons.prems(1) lt hole] obtain s1 where
      s1: "PrefetchAndGet c s = PrefetchAndGet c s1" "same_file s s1" "readahead_ok c s1"
          "status s1 = OK" "iterate_offset s1 = iterate_offset s + block_size s"
      by blast
    have sf: "file_reader s1 = ?f" "block_size s1 = block_size s"
             "end_of_blob_record s1 = end_of_blob_record s"
      using s1(2) by (simp_all add: same_file_def)
    have u: "unat (iterate_offset s1) = slot_end c ?bs ?off sl"
      using le Cons.prems(4) Hole by (simp add: s1(5) unat_add_small)
    have sl1: "slots_at c (file_reader s1) (unat (block_size s1)) (unat (iterate_offset s1)) ss
                (unat (end_of_blob_record s1))"
      using rest by (simp add: sf u)
    have b1: "unat (end_of_blob_record s1) + unat (block_size s1) < 2 ^ 64"
      using Cons.prems(4) by (simp add: sf)
    from Cons.IH[OF s1(3) s1(4) sl1 b1] obtain s' where
      r: "PrefetchAndGet c s1 = Some s'" "same_file s1 s'" "readahead_ok c s'" "status s' = OK"
      and rc: "(case first_live c (unat (block_size s1)) (unat (iterate_offset s1)) ss of
              None \<Rightarrow> \<not> valid s' \<and> iterate_offset s' = end_of_blob_record s1
            | Some (off, r, off', ss') \<Rightarrow>
                valid s' \<and> cur_record_offset s' = of_nat off \<and> cur_blob_record s' = r \<and>
                unat (iterate_offset s') = off' \<and>
                slots_at c (file_reader s1) (unat (block_size s1)) off' ss'
                  (unat (end_of_blob_record s1)))"
      by blast
    have fl: "first_live c ?bs ?off (sl # ss) =
              first_live c (unat (block_size s1)) (unat (iterate_offset s1)) ss"
      using Hole by (simp add: sf u)
    have "same_file s s'"
      using s1(2) r(2) by (simp add: same_file_def)
    moreover have "PrefetchAndGet c s = Some s'"
      using s1(1) r(1) by simp
    ultimately show ?thesis
      using r(3,4) rc unfolding fl by (auto simp: sf split: option.splits)
  next
    case (Live n r)
    from ok Live have lv: "slot_ok c ?f ?bs (unat (iterate_offset s)) (Live n r)"
      by simp
    from PrefetchAndGet_live_step[OF assms(1) Cons.prems(1) lt lv] obtain s1 where
      s1: "PrefetchAndGet c s = Some s1" "same_file s s1" "readahead_ok c s1"
          "status s1 = OK" "valid s1" "cur_blob_record s1 = r"
          "cur_record_offset s1 = iterate_offset s"
          "iterate_offset s1 =
             (if block_size s \<noteq> 0
              then Roundup (iterate_offset s + (kRecordHeaderSize c + ucast n)) (block_size s)
              else iterate_offset s + (kRecordHeaderSize c + ucast n))"
      by blast
    have "slot_end c ?bs ?off (Live n r) + ?bs < 2 ^ 64"
      using le Cons.prems(4) Live by simp
    then have u: "unat (iterate_offset s1) = slot_end c ?bs ?off (Live n r)"
      unfolding s1(8) by (rule live_cursor)
    show ?thesis
      using s1(1-7) u rest Live by simp
  qed
qed

lemma first_live_length:
  "first_live c bs off ss = Some (off1, r, off2, ss') \<Longrightarrow> length ss' < length ss"
proof (induction ss arbitrary: off)
  case Nil
  then show ?case by simp
next
  case (Cons sl ss)
  then show ?case by (cases sl) (auto simp: less_Suc_eq)
qed

lemma live_records_first_live:
  "live_records c bs off ss =
     (case first_live c bs off ss of
        None \<Rightarrow> []
      | Some (off1, r, off2, ss') \<Rightarrow> (of_nat off1, r) # live_records c bs off2 ss')"
proof (induction ss arbitrary: off)
  case Nil
  then show ?case by simp
next
  case (Cons sl ss)
  then show ?case by (cases sl) simp_all
qed

lemma drain_invalid: "\<not> Valid s \<Longrightarrow> drain c s = Some ([], s)"
  by (subst drain.simps) simp

lemma drain_slots:
  assumes "consts_ok c"
  shows "readahead_ok c s \<Longrightarrow> status s = OK \<Longrightarrow> valid s \<Longrightarrow>
    slots_at c (file_reader s) (unat (block_size s)) (unat (iterate_offset s)) ss
      (unat (end_of_blob_record s)) \<Longrightarrow>
    unat (end_of_blob_record s) + unat (block_size s) < 2 ^ 64 \<Longrightarrow>
    \<exists>t. drain c s =
          Some ((cur_record_offset s, cur_blob_record s) #
                live_records c (unat (block_size s)) (unat (iterate_offset s)) ss, t) \<and>
        same_file s t \<and> \<not> valid t \<and> status t = OK \<and>
        iterate_offset t = end_of_blob_record s"
proof (induction "length ss" arbitrary: s ss rule: less_induct)
  case less
  from PrefetchAndGet_slots[OF assms less.prems(1,2,4,5)] obtain s' where
    pg: "PrefetchAndGet c s = Some s'" and sf: "same_file s s'" and ra: "readahead_ok c s'"
    and st: "status s' = OK"
    and cs: "(case first_live c (unat (block_size s)) (unat (iterate_offset s)) ss of
              None \<Rightarrow> \<not> valid s' \<and> iterate_offset s' = end_of_blob_record s
            | Some (off, r, off', ss') \<Rightarrow>
                valid s' \<and> cur_record_offset s' = of_nat off \<and> cur_blob_record s' = r \<and>
                unat (iterate_offset s') = off' \<and>
                slots_at c (file_reader s) (unat (block_size s)) off' ss'
                  (unat (end_of_blob_record s)))"
    by blast
  have V: "Valid s" using less.prems(2,3) by (simp add: Valid_def)
  have unf: "drain c s = Option.bind (drain c s')
               (\<lambda>(rs, t). Some ((cur_record_offset s, cur_blob_record s) # rs, t))"
    using V pg by (subst drain.simps) (simp add: Next_def)
  have sfe: "file_reader s' = file_reader s" "block_size s' = block_size s"
    "end_of_blob_record s' = end_of_blob_record s"
    using sf by (simp_all add: same_file_def)
  show ?case
  proof (cases "first_live c (unat (block_size s)) (unat (iterate_offset s)) ss")
    case None
    then have "\<not> valid s'" "iterate_offset s' = end_of_blob_record s"
      using cs by simp_all
    moreover from this have "drain c s' = Some ([], s')"
      by (intro drain_invalid) (simp add: Valid_def)
    moreover have "live_records c (unat (block_size s)) (unat (iterate_offset s)) ss = []"
      using None by (simp add: live_records_first_live)
    ultimately show ?thesis
      using unf sf st by simp
  next
    case (Some p)
    then obtain off r off' ss' where
      p: "first_live c (unat (block_size s)) (unat (iterate_offset s)) ss = Some (off, r, off', ss')"
      by (cases p) auto
    from cs p have v': "valid s'" and co: "cur_record_offset s' = of_nat off"
      and cr: "cur_blob_record s' = r" and io: "unat (iterate_offset s') = off'"
      and sl: "slots_at c (file_reader s) (unat (block_size s)) off' ss'
                  (unat (end_of_blob_record s))"
      by simp_all
    have len: "length ss' < length ss"
      using p by (rule first_live_length)
    have sl': "slots_at c (file_reader s') (unat (block_size s')) (unat (iterate_offset s')) ss'
                  (unat (end_of_blob_record s'))"
      using sl by (simp add: sfe io)
    have b': "unat (end_of_blob_record s') + unat (block_size s') < 2 ^ 64"
      using less.prems(5) by (simp add: sfe)
    from less.hyps[OF len ra st v' sl' b'] obtain t where
      t: "drain c s' =
          Some ((cur_record_offset s', cur_blob_record s') #
                live_records c (unat (block_size s')) (unat (iterate_offset s')) ss', t)"
         "same_file s' t" "\<not> valid t" "status t = OK" "iterate_offset t = end_of_blob_record s'"
      by blast
    have lr: "live_records c (unat (block_size s)) (unat (iterate_offset s)) ss =
              (of_nat off, r) # live_records c (unat (block_size s)) off' ss'"
      using p by (simp add: live_records_first_live[of c _ _ ss])
    have "same_file s t"
      using sf t(2) by (simp add: same_file_def)
    then show ?thesis
      using unf t lr by (simp add: sfe io co cr)
  qed
qed

subsection \<open>A full scan of a well-formed file\<close>

lemma Init_frame:
  "file_reader (snd (Init c s)) = file_reader s"
  "iter_file_size (snd (Init c s)) = iter_file_size s"
  "titan_cf_options (snd (Init c s)) = titan_cf_options s"
  "readahead_size (snd (Init c s)) = readahead_size s"
  "valid (snd (Init c s)) = valid s"
  "iterate_offset (snd (Init c s)) = iterate_offset s"
  by (simp_all add: Init_def Let_def split: prod.splits option.splits)

lemma Init_succeeds:
  assumes "read_header (file_reader s) = OK"
    and "fst (decode_header (file_reader s)) = OK"
    and "read_footer (file_reader s) (iter_file_size s - kFooterEncodedLength c) = OK"
    and "flags (snd (decode_header (file_reader s))) AND kHasUncompressionDictionary c = 0 \<or>
         fst (init_uncompression_dict (file_reader s)
                (snd (decode_footer (file_reader s)
                       (iter_file_size s - kFooterEncodedLength c)))) = OK"
  shows "fst (Init c s) \<and> init (snd (Init c s))"
  using assms by (auto simp: Init_def Let_def split: prod.splits option.splits)

lemma live_records_bounds:
  "slots_at c f bs off ss e \<Longrightarrow> (w, r) \<in> set (live_records c bs off ss) \<Longrightarrow>
   \<exists>k. w = of_nat k \<and> off \<le> k \<and> k < e"
proof (induction ss arbitrary: off)
  case Nil
  then show ?case by simp
next
  case (Cons sl ss)
  from Cons.prems(1) have ok: "slot_ok c f bs off sl"
    and rest: "slots_at c f bs (slot_end c bs off sl) ss e"
    by simp_all
  have gt: "off < slot_end c bs off sl" using ok by (rule slot_end_gt)
  have le: "slot_end c bs off sl \<le> e" using rest by (rule slots_at_le)
  show ?case
  proof (cases "(w, r) \<in> set (live_records c bs (slot_end c bs off sl) ss)")
    case True
    from Cons.IH[OF rest True] obtain k where "w = of_nat k" "slot_end c bs off sl \<le> k" "k < e"
      by blast
    then show ?thesis using gt by (intro exI[of _ k]) simp
  next
    case False
    then have "w = of_nat off"
      using Cons.prems(2) by (cases sl) auto
    then show ?thesis using gt le by (intro exI[of _ off]) simp
  qed
qed

lemma live_records_sorted:
  assumes "e < 2 ^ 64"
  shows "slots_at c f bs off ss e \<Longrightarrow>
         sorted_wrt (<) (map fst (live_records c bs off ss :: (u64 \<times> BlobRecord) list))"
proof (induction ss arbitrary: off)
  case Nil
  then show ?case by simp
next
  case (Cons sl ss)
  from Cons.prems have ok: "slot_ok c f bs off sl"
    and rest: "slots_at c f bs (slot_end c bs off sl) ss e"
    by simp_all
  have gt: "off < slot_end c bs off sl" using ok by (rule slot_end_gt)
  have le: "slot_end c bs off sl \<le> e" using rest by (rule slots_at_le)
  show ?case
  proof (cases sl)
    case Hole
    then show ?thesis using Cons.IH[OF rest] by simp
  next
    case (Live n r)
    have "(of_nat off :: u64) < w" if "(w, r') \<in> set (live_records c bs (slot_end c bs off sl) ss)"
      for w r'
    proof -
      from live_records_bounds[OF rest that] obtain k where
        k: "w = of_nat k" "slot_end c bs off sl \<le> k" "k < e"
        by blast
      have "unat (of_nat off :: u64) = off" "unat (of_nat k :: u64) = k"
        using k gt assms by (simp_all add: unat_of_nat)
      then show ?thesis
        using k gt by (simp add: word_less_nat_alt)
    qed
    then show ?thesis
      using Cons.IH[OF rest] Live by auto
  qed
qed

lemma live_records_records:
  "map snd (live_records c bs off ss) =
   concat (map (\<lambda>sl. case sl of Live n r \<Rightarrow> [r] | Hole \<Rightarrow> []) ss)"
proof (induction ss arbitrary: off)
  case Nil
  then show ?case by simp
next
  case (Cons sl ss)
  then show ?case by (cases sl) simp_all
qed

lemma scan_visits_live_records:
  assumes "consts_ok c" and "readahead_ok c s" and "\<not> init s" and "wf_file c s slots"
  shows "\<exists>t. scan_all c s =
               Some (live_records c (unat (block_size (snd (Init c s))))
                       (first_offset (unat (block_size (snd (Init c s))))
                          (unat (header_size (snd (Init c s))))) slots, t) \<and>
             \<not> Valid t \<and> status t = OK \<and>
             iterate_offset t = end_of_blob_record (snd (Init c s)) \<and>
             end_of_blob_record t = end_of_blob_record (snd (Init c s))"
    and "sorted_wrt (<) (map fst
           (live_records c (unat (block_size (snd (Init c s))))
              (first_offset (unat (block_size (snd (Init c s))))
                 (unat (header_size (snd (Init c s))))) slots))"
    and "map snd
           (live_records c (unat (block_size (snd (Init c s))))
              (first_offset (unat (block_size (snd (Init c s))))
                 (unat (header_size (snd (Init c s))))) slots) =
         concat (map (\<lambda>sl. case sl of Live n r \<Rightarrow> [r] | Hole \<Rightarrow> []) slots)"
proof -
  define s1 where "s1 = snd (Init c s)"
  define bs where "bs = unat (block_size s1)"
  define e where "e = unat (end_of_blob_record s1)"
  define fo where "fo = first_offset bs (unat (header_size s1))"
  from assms(4) have hdr: "read_header (file_reader s) = OK"
    "fst (decode_header (file_reader s)) = OK"
    "read_footer (file_reader s) (iter_file_size s - kFooterEncodedLength c) = OK"
    "flags (snd (decode_header (file_reader s))) AND kHasUncompressionDictionary c = 0 \<or>
         fst (init_uncompression_dict (file_reader s)
                (snd (decode_footer (file_reader s)
                       (iter_file_size s - kFooterEncodedLength c)))) = OK"
    and bound: "e + bs < 2 ^ 64"
    and sl: "slots_at c (file_reader s) bs fo slots e"
    unfolding wf_file_def Let_def s1_def[symmetric] bs_def[symmetric] e_def[symmetric]
      fo_def[symmetric]
    by simp_all
  from Init_succeeds[OF hdr] have go: "fst (Init c s)" and i1: "init s1"
    by (simp_all add: s1_def)
  have fr: "file_reader s1 = file_reader s" and ra1: "readahead_size s1 = readahead_size s"
    by (simp_all add: s1_def Init_frame)
  define s3 where "s3 = s1\<lparr>status := OK,
      iterate_offset := (if block_size s1 \<noteq> 0 then Roundup (header_size s1) (block_size s1)
                         else header_size s1)\<rparr>"
  have ieq: "Init c s = (True, s1)"
    using go by (simp add: s1_def prod_eq_iff)
  have seek: "SeekToFirst c s = PrefetchAndGet c s3"
    using assms(3) by (simp add: SeekToFirst_def Let_def s3_def ieq)
  have fole: "fo \<le> e" using sl by (rule slots_at_le)
  have u3: "unat (iterate_offset s3) = fo"
  proof (cases "block_size s1 = 0")
    case True
    then show ?thesis by (simp add: s3_def fo_def first_offset_def bs_def)
  next
    case False
    then have nz: "bs \<noteq> 0" by (simp add: bs_def unat_eq_0)
    have "unat (header_size s1) \<le> ((unat (header_size s1) + bs - 1) div bs) * bs"
      using nz by (intro rup_ge) simp
    then have "unat (header_size s1) \<le> fo"
      unfolding fo_def first_offset_def using nz by simp
    then have "unat (header_size s1) + unat (block_size s1) < 2 ^ 64"
      using fole bound by (simp add: bs_def)
    then have "unat (Roundup (header_size s1) (block_size s1)) = fo"
      using nz by (subst unat_Roundup[OF False]) (simp_all add: fo_def first_offset_def bs_def)
    then show ?thesis using False by (simp add: s3_def)
  qed
  have r3: "readahead_ok c s3"
    using assms(2) by (simp add: readahead_ok_def s3_def ra1)
  have sl3: "slots_at c (file_reader s3) (unat (block_size s3)) (unat (iterate_offset s3)) slots
               (unat (end_of_blob_record s3))"
    using sl unfolding u3 by (simp add: s3_def fr bs_def e_def)
  have b3: "unat (end_of_blob_record s3) + unat (block_size s3) < 2 ^ 64"
    using bound by (simp add: s3_def bs_def e_def)
  have st3: "status s3 = OK" by (simp add: s3_def)
  from PrefetchAndGet_slots[OF assms(1) r3 st3 sl3 b3] obtain s' where
    pg: "PrefetchAndGet c s3 = Some s'" and sf: "same_file s3 s'" and ra: "readahead_ok c s'"
    and st: "status s' = OK"
    and cs: "(case first_live c (unat (block_size s3)) (unat (iterate_offset s3)) slots of
              None \<Rightarrow> \<not> valid s' \<and> iterate_offset s' = end_of_blob_record s3
            | Some (off, r, off', ss') \<Rightarrow>
                valid s' \<and> cur_record_offset s' = of_nat off \<and> cur_blob_record s' = r \<and>
                unat (iterate_offset s') = off' \<and>
                slots_at c (file_reader s3) (unat (block_size s3)) off' ss'
                  (unat (end_of_blob_record s3)))"
    by blast
  have sfe: "file_reader s' = file_reader s3" "block_size s' = block_size s3"
    "end_of_blob_record s' = end_of_blob_record s3"
    using sf by (simp_all add: same_file_def)
  have e3: "end_of_blob_record s3 = end_of_blob_record s1" "unat (block_size s3) = bs"
    by (simp_all add: s3_def bs_def)
  have scan: "scan_all c s = drain c s'"
    by (simp add: scan_all_def seek pg)
  have main: "\<exists>t. scan_all c s = Some (live_records c bs fo slots, t) \<and>
             \<not> Valid t \<and> status t = OK \<and>
             iterate_offset t = end_of_blob_record s1 \<and>
             end_of_blob_record t = end_of_blob_record s1"
  proof (cases "first_live c bs fo slots")
    case None
    then have "\<not> valid s'" "iterate_offset s' = end_of_blob_record s3"
      using cs by (simp_all add: e3 u3)
    moreover from this have "drain c s' = Some ([], s')"
      by (intro drain_invalid) (simp add: Valid_def)
    moreover have "live_records c bs fo slots = []"
      using None by (simp add: live_records_first_live)
    ultimately show ?thesis
      using scan st by (simp add: Valid_def sfe e3)
  next
    case (Some p)
    then obtain off r off' ss' where
      p: "first_live c bs fo slots = Some (off, r, off', ss')"
      by (cases p) auto
    from cs p have v': "valid s'" and co: "cur_record_offset s' = of_nat off"
      and cr: "cur_blob_record s' = r" and io: "unat (iterate_offset s') = off'"
      and sl': "slots_at c (file_reader s3) (unat (block_size s3)) off' ss'
                  (unat (end_of_blob_record s3))"
      by (simp_all add: e3 u3)
    have sl'': "slots_at c (file_reader s') (unat (block_size s')) (unat (iterate_offset s')) ss'
                  (unat (end_of_blob_record s'))"
      using sl' by (simp add: sfe io)
    have b': "unat (end_of_blob_record s') + unat (block_size s') < 2 ^ 64"
      using b3 by (simp add: sfe)
    from drain_slots[OF assms(1) ra st v' sl'' b'] obtain t where
      t: "drain c s' =
          Some ((cur_record_offset s', cur_blob_record s') #
                live_records c (unat (block_size s')) (unat (iterate_offset s')) ss', t)"
         "same_file s' t" "\<not> valid t" "status t = OK" "iterate_offset t = end_of_blob_record s'"
      by blast
    have lr: "live_records c bs fo slots = (of_nat off, r) # live_records c bs off' ss'"
      using p by (simp add: live_records_first_live[of c _ _ slots])
    have "end_of_blob_record t = end_of_blob_record s'"
      using t(2) by (simp add: same_file_def)
    then show ?thesis
      using scan t lr by (simp add: sfe io co cr e3 Valid_def)
  qed
  show "\<exists>t. scan_all c s =
               Some (live_records c (unat (block_size (snd (Init c s))))
                       (first_offset (unat (block_size (snd (Init c s))))
                          (unat (header_size (snd (Init c s))))) slots, t) \<and>
             \<not> Valid t \<and> status t = OK \<and>
             iterate_offset t = end_of_blob_record (snd (Init c s)) \<and>
             end_of_blob_record t = end_of_blob_record (snd (Init c s))"
    using main by (simp add: s1_def bs_def fo_def)
  have "e < 2 ^ 64" using bound by simp
  from live_records_sorted[OF this sl]
  show "sorted_wrt (<) (map fst
           (live_records c (unat (block_size (snd (Init c s))))
              (first_offset (unat (block_size (snd (Init c s))))
                 (unat (header_size (snd (Init c s))))) slots))"
    by (simp add: s1_def bs_def fo_def)
  show "map snd
           (live_records c (unat (block_size (snd (Init c s))))
              (first_offset (unat (block_size (snd (Init c s))))
                 (unat (header_size (snd (Init c s))))) slots) =
         concat (map (\<lambda>sl. case sl of Live n r \<Rightarrow> [r] | Hole \<Rightarrow> []) slots)"
    by (rule live_records_records)
qed

subsection \<open>\<^verbatim>\<open>IterateForPrev\<close> over a well-formed slot layout\<close>









lemma Init_failure_status:
  "\<not> fst (Init c s) \<Longrightarrow> status (snd (Init c s)) \<noteq> OK \<and> init (snd (Init c s)) = init s"
proof -
  obtain st2 h where dh: "decode_header (file_reader s) = (st2, h)"
    by (cases "decode_header (file_reader s)")
  obtain st5 ft where df:
    "decode_footer (file_reader s) (iter_file_size s - kFooterEncodedLength c) = (st5, ft)"
    by (cases "decode_footer (file_reader s) (iter_file_size s - kFooterEncodedLength c)")
  obtain st7 dsz where di: "init_uncompression_dict (file_reader s) ft = (st7, dsz)"
    by (cases "init_uncompression_dict (file_reader s) ft")
  assume "\<not> fst (Init c s)"
  then show ?thesis
    by (cases "meta_index_handle ft")
       (auto simp: Init_def Let_def dh df di split: if_splits)
qed




subsection \<open>Termination of \<^verbatim>\<open>PrefetchAndGet\<close>\<close>

text \<open>
  A stuck iterator never returns from \<^verbatim>\<open>PrefetchAndGet\<close>. With a non-zero block size
  every iteration moves the cursor towards the boundary; without hole-punched blocks
  the first iteration returns.
\<close>

lemma readahead_frame:
  assumes "readahead c s = Some s1"
  shows "\<exists>b e z. s1 = s\<lparr>readahead_begin_offset := b, readahead_end_offset := e,
                         readahead_size := z\<rparr>"
proof -
  define s0 where "s0 = (if readahead_begin_offset s > iterate_offset s \<or>
                   readahead_end_offset s < iterate_offset s
                then
                  let b = iterate_offset s - (iterate_offset s AND (kDefaultPageSize c - 1))
                  in s\<lparr>readahead_begin_offset := b, readahead_end_offset := b,
                       readahead_size := kMinReadaheadSize c\<rparr>
                else s)"
  define mb where "mb = iterate_offset s0 + kRecordHeaderSize c + min_blob_size (titan_cf_options s0)"
  have unf: "readahead c s =
      (if readahead_end_offset s0 \<le> mb then
        (case grow_readahead (kMaxReadaheadSize c) (readahead_end_offset s0) mb
                (readahead_size s0) of
           None \<Rightarrow> None
         | Some rsize \<Rightarrow>
             Some (s0\<lparr>readahead_end_offset := readahead_end_offset s0 + rsize,
                      readahead_size := min (kMaxReadaheadSize c) (push_bit 1 rsize)\<rparr>))
      else Some s0)"
    unfolding readahead_def s0_def mb_def Let_def by (rule refl)
  have s0e: "\<exists>b e z. s0 = s\<lparr>readahead_begin_offset := b, readahead_end_offset := e,
                         readahead_size := z\<rparr>"
  proof (cases "readahead_begin_offset s > iterate_offset s \<or> readahead_end_offset s < iterate_offset s")
    case True
    then show ?thesis unfolding s0_def Let_def by auto
  next
    case False
    then have "s0 = s" by (simp add: s0_def)
    moreover have "s = s\<lparr>readahead_begin_offset := readahead_begin_offset s,
        readahead_end_offset := readahead_end_offset s, readahead_size := readahead_size s\<rparr>"
      by simp
    ultimately show ?thesis by metis
  qed
  then obtain b e z where s0: "s0 = s\<lparr>readahead_begin_offset := b, readahead_end_offset := e,
                         readahead_size := z\<rparr>"
    by blast
  show ?thesis
  proof (cases "readahead_end_offset s0 \<le> mb")
    case False
    then have "s1 = s0" using assms by (simp add: unf)
    then show ?thesis using s0 by blast
  next
    case True
    then obtain rsize where "s1 = s0\<lparr>readahead_end_offset := readahead_end_offset s0 + rsize,
                      readahead_size := min (kMaxReadaheadSize c) (push_bit 1 rsize)\<rparr>"
      using assms by (auto simp: unf split: option.splits)
    then have "s1 = s\<lparr>readahead_begin_offset := b,
        readahead_end_offset := readahead_end_offset s0 + rsize,
        readahead_size := min (kMaxReadaheadSize c) (push_bit 1 rsize)\<rparr>"
      by (simp add: s0)
    then show ?thesis by blast
  qed
qed

lemma PrefetchAndGet_not_stuck:
  "PrefetchAndGet c s = Some y \<Longrightarrow> \<not> stuck s"
proof (erule PrefetchAndGet.raw_induct[rotated])
  fix f :: "titan_consts \<Rightarrow> BlobFileIterator \<Rightarrow> BlobFileIterator option"
    and c :: titan_consts and s y :: BlobFileIterator
  assume IH: "\<And>c s y. f c s = Some y \<Longrightarrow> \<not> stuck s"
  assume F: "(if iterate_offset s < end_of_blob_record s
      then case readahead c s of None \<Rightarrow> None
           | Some s1 \<Rightarrow>
               case GetBlobRecord c s1 of
               (live, s2) \<Rightarrow>
                 let s3 = if readahead_end_offset s2 < iterate_offset s2
                          then s2\<lparr>readahead_end_offset := iterate_offset s2\<rparr>
                          else s2
                 in if live \<or> status s3 \<noteq> OK then Some s3
                    else f c (s3\<lparr>iterate_offset := iterate_offset s3 + block_size s3\<rparr>)
      else Some (s\<lparr>valid := False\<rparr>)) = Some y"
  show "\<not> stuck s"
  proof
    assume st: "stuck s"
    then have lt: "iterate_offset s < end_of_blob_record s" by (simp add: stuck_def)
    from F lt obtain s1 where ra: "readahead c s = Some s1"
      by (auto split: option.splits)
    from readahead_frame[OF ra] obtain b e z where
      s1: "s1 = s\<lparr>readahead_begin_offset := b, readahead_end_offset := e, readahead_size := z\<rparr>"
      by blast
    have g: "GetBlobRecord c s1 = (False, s1\<lparr>status := OK\<rparr>)"
      using st by (intro GetBlobRecord_hole) (simp add: s1 stuck_def)
    define s3 where "s3 = (if readahead_end_offset (s1\<lparr>status := OK\<rparr>) < iterate_offset (s1\<lparr>status := OK\<rparr>)
                          then s1\<lparr>status := OK\<rparr>\<lparr>readahead_end_offset := iterate_offset (s1\<lparr>status := OK\<rparr>)\<rparr>
                          else s1\<lparr>status := OK\<rparr>)"
    have "f c (s3\<lparr>iterate_offset := iterate_offset s3 + block_size s3\<rparr>) = Some y"
      using F lt ra g by (auto simp: s3_def Let_def split: if_splits)
    then have "\<not> stuck (s3\<lparr>iterate_offset := iterate_offset s3 + block_size s3\<rparr>)"
      by (rule IH)
    moreover have "stuck (s3\<lparr>iterate_offset := iterate_offset s3 + block_size s3\<rparr>)"
      using st by (simp add: stuck_def s3_def s1)
    ultimately show False by contradiction
  qed
qed

lemma PrefetchAndGet_diverges:
  assumes "block_size s = 0" and "iterate_offset s < end_of_blob_record s"
    and "read_record_header (file_reader s) (iterate_offset s) = (OK, 0)"
  shows "PrefetchAndGet c s = None"
proof (cases "PrefetchAndGet c s")
  case None
  then show ?thesis .
next
  case (Some y)
  then have "\<not> stuck s" by (rule PrefetchAndGet_not_stuck)
  then show ?thesis using assms by (simp add: stuck_def)
qed

lemma PrefetchAndGet_returns_block:
  assumes "consts_ok c"
  shows "readahead_ok c s \<Longrightarrow> block_size s \<noteq> 0 \<Longrightarrow>
         unat (end_of_blob_record s) + unat (block_size s) < 2 ^ 64 \<Longrightarrow>
         \<exists>s'. PrefetchAndGet c s = Some s'"
proof (induction "unat (end_of_blob_record s) - unat (iterate_offset s)" arbitrary: s
        rule: less_induct)
  case less
  show ?case
  proof (cases "iterate_offset s < end_of_blob_record s")
    case False
    then show ?thesis by (simp add: PrefetchAndGet_end)
  next
    case True
    from readahead_Some[OF assms less.prems(1)] obtain b e z where
      ra: "readahead c s =
             Some (s\<lparr>readahead_begin_offset := b, readahead_end_offset := e, readahead_size := z\<rparr>)"
      and z: "z \<noteq> 0" "z \<le> kMaxReadaheadSize c"
      by blast
    define sa where "sa = s\<lparr>readahead_begin_offset := b, readahead_end_offset := e, readahead_size := z\<rparr>"
    obtain live s2 where g: "GetBlobRecord c sa = (live, s2)"
      by (cases "GetBlobRecord c sa")
    define s3 where "s3 = (if readahead_end_offset s2 < iterate_offset s2
                            then s2\<lparr>readahead_end_offset := iterate_offset s2\<rparr> else s2)"
    have unf: "PrefetchAndGet c s =
        (if live \<or> status s3 \<noteq> OK then Some s3
         else PrefetchAndGet c (s3\<lparr>iterate_offset := iterate_offset s3 + block_size s3\<rparr>))"
      using True ra g
      by (subst PrefetchAndGet.simps) (simp add: sa_def[symmetric] s3_def Let_def)
    show ?thesis
    proof (cases "live \<or> status s3 \<noteq> OK")
      case True
      then show ?thesis by (simp add: unf)
    next
      case False
      then have nl: "\<not> live" "status s2 = OK"
        by (simp_all add: s3_def split: if_splits)
      have s2: "s2 = sa\<lparr>status := OK\<rparr>"
        using g nl unfolding GetBlobRecord_def Let_def
        by (auto split: prod.splits if_splits)
      define s4 where "s4 = s3\<lparr>iterate_offset := iterate_offset s3 + block_size s3\<rparr>"
      have f4: "block_size s4 = block_size s" "end_of_blob_record s4 = end_of_blob_record s"
        "iterate_offset s4 = iterate_offset s + block_size s" "readahead_ok c s4"
        using z by (simp_all add: s4_def s3_def s2 sa_def readahead_ok_def)
      have lt: "unat (iterate_offset s) < unat (end_of_blob_record s)"
        using True by (simp add: word_less_nat_alt)
      have u4: "unat (iterate_offset s4) = unat (iterate_offset s) + unat (block_size s)"
        using lt less.prems(3) by (simp add: f4 unat_add_small)
      have bpos: "0 < unat (block_size s)"
        using less.prems(2) by (simp add: unat_gt_0)
      have dec: "unat (end_of_blob_record s4) - unat (iterate_offset s4) <
                 unat (end_of_blob_record s) - unat (iterate_offset s)"
        using u4 lt bpos by (simp add: f4)
      have "\<exists>s'. PrefetchAndGet c s4 = Some s'"
        using less.prems(2,3) by (intro less.hyps[OF dec f4(4)]) (simp_all add: f4)
      then show ?thesis
        using False by (simp add: unf s4_def)
    qed
  qed
qed

lemma PrefetchAndGet_returns_no_hole:
  assumes "consts_ok c" and "readahead_ok c s"
    and "read_record_header (file_reader s) (iterate_offset s) \<noteq> (OK, 0)"
  shows "\<exists>s'. PrefetchAndGet c s = Some s'"
proof (cases "iterate_offset s < end_of_blob_record s")
  case False
  then show ?thesis by (simp add: PrefetchAndGet_end)
next
  case True
  from readahead_Some[OF assms(1,2)] obtain b e z where
    ra: "readahead c s =
           Some (s\<lparr>readahead_begin_offset := b, readahead_end_offset := e, readahead_size := z\<rparr>)"
    by blast
  define sa where "sa = s\<lparr>readahead_begin_offset := b, readahead_end_offset := e, readahead_size := z\<rparr>"
  obtain live s2 where g: "GetBlobRecord c sa = (live, s2)"
    by (cases "GetBlobRecord c sa")
  have h: "read_record_header (file_reader sa) (iterate_offset sa) \<noteq> (OK, 0)"
    using assms(3) by (simp add: sa_def)
  have "live \<or> status s2 \<noteq> OK"
    using g h unfolding GetBlobRecord_def Let_def
    by (auto split: prod.splits if_splits)
  then show ?thesis
    using True ra g
    by (subst PrefetchAndGet.simps) (auto simp: sa_def[symmetric] Let_def)
qed

section \<open>The merge iterator: theorems\<close>

subsection \<open>The top of the queue\<close>

text \<open>
  The top is a queued child, and no queued child has a smaller key when the comparator
  orders keys.
\<close>

lemma heap_fold_mem:
  "fold (\<lambda>j m. if P m j then j else m) h i \<in> set (i # h)"
proof (induction h arbitrary: i)
  case Nil
  then show ?case by simp
next
  case (Cons a h)
  have "fold (\<lambda>j m. if P m j then j else m) h (if P i a then a else i) \<in>
        set ((if P i a then a else i) # h)"
    by (rule Cons.IH)
  then show ?case by auto
qed

lemma heap_top_mem: "h \<noteq> [] \<Longrightarrow> heap_top comparator its h \<in> set h"
proof (cases h)
  case Nil
  assume "h \<noteq> []"
  then show ?thesis using Nil by simp
next
  case (Cons i h')
  then show ?thesis
    using heap_fold_mem[of _ h' i] by simp
qed

lemma heap_fold_min:
  assumes tot: "\<And>a b. le a b \<or> le b a"
    and trans: "\<And>a b c. le a b \<Longrightarrow> le b c \<Longrightarrow> le a c"
  shows "(\<And>x. x \<in> S \<Longrightarrow> le (k i) (k x)) \<Longrightarrow>
         x \<in> S \<union> set (i # h) \<Longrightarrow>
         le (k (fold (\<lambda>j m. if \<not> le (k m) (k j) then j else m) h i)) (k x)"
proof (induction h arbitrary: i S)
  case Nil
  then show ?case using tot by auto
next
  case (Cons a h)
  define i' where "i' = (if \<not> le (k i) (k a) then a else i)"
  have le_i'_i: "le (k i') (k i)"
    using tot by (auto simp: i'_def)
  have le_i'_a: "le (k i') (k a)"
    using tot by (auto simp: i'_def)
  have 1: "le (k i') (k y)" if "y \<in> S \<union> {i, a}" for y
  proof -
    from that consider "y \<in> S" | "y = i" | "y = a" by auto
    then show ?thesis
    proof cases
      case 1
      then have "le (k i) (k y)" by (rule Cons.prems(1))
      with le_i'_i show ?thesis by (rule trans)
    next
      case 2
      then show ?thesis using le_i'_i by simp
    next
      case 3
      then show ?thesis using le_i'_a by simp
    qed
  qed
  have 2: "x \<in> (S \<union> {i, a}) \<union> set (i' # h)"
    using Cons.prems(2) by auto
  have "le (k (fold (\<lambda>j m. if \<not> le (k m) (k j) then j else m) h i')) (k x)"
    using 1 2 by (rule Cons.IH)
  then show ?case by (simp add: i'_def)
qed

lemma heap_top_min:
  assumes "comparator_ok comparator" and "j \<in> set h"
  shows "key_le comparator (cur_blob_record (its ! heap_top comparator its h))
           (cur_blob_record (its ! j))"
proof (cases h)
  case Nil
  then show ?thesis using assms(2) by simp
next
  case (Cons i h')
  define le where "le = (\<lambda>a b. comparator a b \<le> 0)"
  define k where "k = (\<lambda>n. key (cur_blob_record (its ! n)))"
  have tot: "\<And>a b. le a b \<or> le b a"
    using assms(1) unfolding comparator_ok_def le_def by blast
  have trans: "\<And>a b c. le a b \<Longrightarrow> le b c \<Longrightarrow> le a c"
    using assms(1) unfolding comparator_ok_def le_def by blast
  have f: "(\<lambda>j m. if BlobFileIterComparator comparator (its ! m) (its ! j) then j else m) =
           (\<lambda>j m. if \<not> le (k m) (k j) then j else m)"
    by (intro ext) (simp add: BlobFileIterComparator_def le_def k_def not_le)
  have e: "\<And>x. x \<in> {} \<Longrightarrow> le (k i) (k x)"
    by simp
  have m: "j \<in> {} \<union> set (i # h')"
    using assms(2) Cons by simp
  have "le (k (fold (\<lambda>j m. if \<not> le (k m) (k j) then j else m) h' i)) (k j)"
    by (rule heap_fold_min[where le = le and k = k and S = "{}" and i = i and h = h' and x = j,
          OF tot trans e m])
  then show ?thesis
    using Cons by (simp add: f key_le_def le_def k_def)
qed

lemma drain_Valid:
  assumes "Valid it" and "drain c it = Some (rs, t)"
  shows "\<exists>it' rs'. Next c it = Some it' \<and> drain c it' = Some (rs', t) \<and>
           rs = (cur_record_offset it, cur_blob_record it) # rs'"
proof -
  have unf: "drain c it =
      (case Next c it of
           None \<Rightarrow> None
         | Some s' \<Rightarrow>
             Option.bind (drain c s')
               (\<lambda>(rs, t). Some ((cur_record_offset it, cur_blob_record it) # rs, t)))"
    using assms(1) by (subst drain.simps) simp
  show ?thesis
  proof (cases "Next c it")
    case None
    then show ?thesis using assms(2) unf by simp
  next
    case (Some it')
    show ?thesis
    proof (cases "drain c it'")
      case None
      then show ?thesis using assms(2) unf Some by simp
    next
      case d: (Some p)
      obtain rs' t' where p: "p = (rs', t')" by (cases p)
      have "rs = (cur_record_offset it, cur_blob_record it) # rs'" "t = t'"
        using assms(2) unf Some d p by simp_all
      then show ?thesis using Some d p by simp
    qed
  qed
qed

lemma child_records_invalid: "\<not> Valid it \<Longrightarrow> child_records c it = []"
  by (simp add: child_records_def drain_invalid)

lemma child_records_Valid:
  assumes "Valid it" and "drain c it \<noteq> None"
  shows "\<exists>it'. Next c it = Some it' \<and> drain c it' \<noteq> None \<and>
           child_records c it = cur_blob_record it # child_records c it'"
proof -
  from assms(2) obtain rs t where d: "drain c it = Some (rs, t)" by auto
  from drain_Valid[OF assms(1) d] obtain it' rs' where
    "Next c it = Some it'" "drain c it' = Some (rs', t)"
    "rs = (cur_record_offset it, cur_blob_record it) # rs'"
    by blast
  then show ?thesis
    using d by (auto simp: child_records_def)
qed

lemma mset_concat_update:
  assumes "i < length xs"
  shows "mset (concat (map f (xs[i := x]))) + mset (f (xs ! i)) =
         mset (concat (map f xs)) + mset (f x)"
proof -
  have xs: "xs = take i xs @ xs ! i # drop (Suc i) xs"
    using assms by (simp add: id_take_nth_drop)
  have up: "xs[i := x] = take i xs @ x # drop (Suc i) xs"
    using assms by (simp add: upd_conv_take_nth_drop)
  have "mset (concat (map f xs)) =
        mset (concat (map f (take i xs))) + mset (f (xs ! i)) +
        mset (concat (map f (drop (Suc i) xs)))"
    by (subst xs) simp
  moreover have "mset (concat (map f (xs[i := x]))) =
        mset (concat (map f (take i xs))) + mset (f x) +
        mset (concat (map f (drop (Suc i) xs)))"
    by (subst up) simp
  ultimately show ?thesis by simp
qed

lemma length_concat_update:
  assumes "i < length xs"
  shows "length (concat (map f (xs[i := x]))) + length (f (xs ! i)) =
         length (concat (map f xs)) + length (f x)"
proof -
  have "size (mset (concat (map f (xs[i := x]))) + mset (f (xs ! i))) =
        size (mset (concat (map f xs)) + mset (f x))"
    using mset_concat_update[OF assms, of f x] by simp
  then show ?thesis by simp
qed

lemma sorted_wrt_hd_trans:
  assumes "\<And>a b c. P a b \<Longrightarrow> P b c \<Longrightarrow> P a c"
    and "sorted_wrt P xs" and "xs \<noteq> [] \<Longrightarrow> P r (hd xs)"
  shows "sorted_wrt P (r # xs)"
proof (cases xs)
  case Nil
  then show ?thesis by simp
next
  case (Cons x xs')
  then have "P r x" using assms(3) by simp
  moreover have "\<forall>y \<in> set xs'. P x y" using assms(2) Cons by simp
  ultimately have "\<forall>y \<in> set xs. P r y"
    using assms(1) Cons by auto
  then show ?thesis using assms(2) by simp
qed

subsection \<open>The invariants are kept\<close>

lemma take_top_fields:
  "blob_file_iterators (take_top comparator m) = blob_file_iterators m"
  "merge_status (take_top comparator m) = merge_status m"
  "current (take_top comparator m) = Some (heap_top comparator (blob_file_iterators m) (min_heap m))"
  "min_heap (take_top comparator m) =
     remove1 (heap_top comparator (blob_file_iterators m) (min_heap m)) (min_heap m)"
  by (simp_all add: take_top_def Let_def)

lemma take_top_inv:
  assumes "heap_inv c m" and "min_heap m \<noteq> []"
  shows "merge_inv c (take_top comparator m)"
proof -
  let ?its = "blob_file_iterators m" and ?h = "min_heap m"
  define top where "top = heap_top comparator ?its ?h"
  have mem: "top \<in> set ?h"
    unfolding top_def using assms(2) by (rule heap_top_mem)
  from assms(1) have d: "distinct ?h"
    and v: "\<forall>j \<in> set ?h. j < length ?its \<and> Valid (?its ! j)"
    and t: "\<forall>j < length ?its. drain c (?its ! j) \<noteq> None"
    and nv: "\<forall>j < length ?its. j \<notin> set ?h \<longrightarrow> \<not> Valid (?its ! j)"
    and ok: "merge_status m = OK"
    by (simp_all add: heap_inv_def Let_def)
  have 1: "distinct (remove1 top ?h)" using d by simp
  have 2: "\<forall>j \<in> set (remove1 top ?h). j < length ?its \<and> Valid (?its ! j)"
    using v d by simp
  have 3: "top < length ?its" "Valid (?its ! top)" "top \<notin> set (remove1 top ?h)"
    using v mem d by simp_all
  have 4: "\<forall>j < length ?its. j \<notin> set (remove1 top ?h) \<and> j \<noteq> top \<longrightarrow> \<not> Valid (?its ! j)"
    using nv d by auto
  show ?thesis
    unfolding merge_inv_def Let_def take_top_fields top_def[symmetric]
    using 1 2 3 4 t ok by simp
qed

lemma no_top_inv:
  assumes "heap_inv c m" and "min_heap m = []"
  shows "merge_inv c (m\<lparr>current := None\<rparr>)" and "merge_inv c (m\<lparr>current := None, merge_status := st\<rparr>)"
  using assms by (simp_all add: heap_inv_def merge_inv_def Let_def)

lemma concat_all_empty:
  assumes "\<forall>j < length xs. f (xs ! j) = []"
  shows "concat (map f xs) = []"
  using assms by (auto simp: in_set_conv_nth)

lemma Valid_status: "(status it = OK \<and> Valid it) = Valid it"
  by (auto simp: Valid_def)

lemma MergeNext_unfold:
  assumes "current m = Some i" and "Next c (blob_file_iterators m ! i) = Some it"
  shows "MergeNext c comparator m =
    Some (Inr (let m2 = (if Valid it
                         then m\<lparr>blob_file_iterators := (blob_file_iterators m)[i := it],
                                min_heap := min_heap m @ [i]\<rparr>
                         else m\<lparr>blob_file_iterators := (blob_file_iterators m)[i := it]\<rparr>)
               in if min_heap m2 \<noteq> [] then take_top comparator m2 else m2\<lparr>current := None\<rparr>))"
  using assms by (simp add: MergeNext_def Let_def Valid_status)

lemma push_inv:
  assumes "merge_inv c m" and "current m = Some i"
    and "drain c it \<noteq> None"
  shows "heap_inv c (if Valid it
                     then m\<lparr>blob_file_iterators := (blob_file_iterators m)[i := it],
                            min_heap := min_heap m @ [i]\<rparr>
                     else m\<lparr>blob_file_iterators := (blob_file_iterators m)[i := it]\<rparr>)"
proof -
  let ?its = "blob_file_iterators m" and ?h = "min_heap m"
  from assms(1,2) have d: "distinct ?h"
    and v: "\<forall>j \<in> set ?h. j < length ?its \<and> Valid (?its ! j)"
    and t: "\<forall>j < length ?its. drain c (?its ! j) \<noteq> None"
    and ok: "merge_status m = OK"
    and i: "i < length ?its" "i \<notin> set ?h"
    and nv: "\<forall>j < length ?its. j \<notin> set ?h \<and> j \<noteq> i \<longrightarrow> \<not> Valid (?its ! j)"
    by (simp_all add: merge_inv_def Let_def)
  have nth: "\<And>j. j < length ?its \<Longrightarrow> ?its[i := it] ! j = (if j = i then it else ?its ! j)"
    using i by (simp add: nth_list_update)
  have t': "\<forall>j < length ?its. drain c (?its[i := it] ! j) \<noteq> None"
    using t assms(3) nth by (metis (full_types))
  show ?thesis
  proof (cases "Valid it")
    case True
    have "\<forall>j \<in> set (?h @ [i]). j < length ?its \<and> Valid (?its[i := it] ! j)"
      using v i True by (auto simp: nth_list_update)
    moreover have "\<forall>j < length ?its. j \<notin> set (?h @ [i]) \<longrightarrow> \<not> Valid (?its[i := it] ! j)"
      using nv i by (auto simp: nth_list_update)
    moreover have "distinct (?h @ [i])" using d i by simp
    ultimately show ?thesis
      using True t' ok by (simp add: heap_inv_def Let_def)
  next
    case False
    have "\<forall>j \<in> set ?h. j < length ?its \<and> Valid (?its[i := it] ! j)"
      using v i by (auto simp: nth_list_update)
    moreover have "\<forall>j < length ?its. j \<notin> set ?h \<longrightarrow> \<not> Valid (?its[i := it] ! j)"
      using nv i False by (auto simp: nth_list_update)
    ultimately show ?thesis
      using False t' ok d by (simp add: heap_inv_def Let_def)
  qed
qed

subsection \<open>Draining the merge\<close>

text \<open>
  From a state that satisfies the invariant the caller's loop returns, and emits the
  records the children still have to give.
\<close>

lemma take_top_sorted:
  assumes "comparator_ok comparator" and "min_heap m \<noteq> []"
  shows "\<forall>i. current (take_top comparator m) = Some i \<longrightarrow>
           (\<forall>j \<in> set (min_heap (take_top comparator m)).
              key_le comparator (cur_blob_record (blob_file_iterators (take_top comparator m) ! i))
                (cur_blob_record (blob_file_iterators (take_top comparator m) ! j)))"
proof (intro allI impI ballI)
  fix i j
  assume i: "current (take_top comparator m) = Some i"
    and j: "j \<in> set (min_heap (take_top comparator m))"
  have "i = heap_top comparator (blob_file_iterators m) (min_heap m)"
    using i by (simp add: take_top_fields)
  moreover have "j \<in> set (min_heap m)"
    using j by (simp add: take_top_fields) (meson notin_set_remove1)
  ultimately show "key_le comparator
      (cur_blob_record (blob_file_iterators (take_top comparator m) ! i))
      (cur_blob_record (blob_file_iterators (take_top comparator m) ! j))"
    using heap_top_min[OF assms(1), of j "min_heap m" "blob_file_iterators m"]
    by (simp add: take_top_fields)
qed

lemma child_records_hd:
  assumes "Valid it" and "drain c it \<noteq> None"
  shows "child_records c it \<noteq> [] \<and> hd (child_records c it) = cur_blob_record it"
  using child_records_Valid[OF assms] by auto

lemma merge_drain_invalid: "\<not> MergeValid m \<Longrightarrow> merge_drain c comparator m = Some (Inr [])"
  by (subst merge_drain.simps) simp

lemma merge_drain_step:
  assumes "MergeValid m" and "current m = Some i"
    and "MergeNext c comparator m = Some (Inr m')"
    and "merge_drain c comparator m' = Some (Inr out)"
  shows "merge_drain c comparator m =
         Some (Inr (cur_blob_record (blob_file_iterators m ! i) # out))"
  using assms by (subst merge_drain.simps) (simp add: MergeRecord_def)

lemma merge_inv_MergeValid:
  assumes "merge_inv c m" and "current m = Some i"
  shows "MergeValid m"
  using assms by (simp add: merge_inv_def MergeValid_def Let_def Valid_def)

lemma merge_drain_correct:
  "merge_inv c m \<Longrightarrow>
   \<exists>out. merge_drain c comparator m = Some (Inr out) \<and>
     mset out = mset (concat (map (child_records c) (blob_file_iterators m))) \<and>
     (\<forall>i. current m = Some i \<longrightarrow>
        out \<noteq> [] \<and> hd out = cur_blob_record (blob_file_iterators m ! i)) \<and>
     (merge_sorted_inv c comparator m \<longrightarrow> sorted_wrt (key_le comparator) out)"
proof (induction "length (concat (map (child_records c) (blob_file_iterators m)))"
        arbitrary: m rule: less_induct)
  case less
  let ?its = "blob_file_iterators m" and ?h = "min_heap m"
  show ?case
  proof (cases "current m")
    case None
    then have "\<not> MergeValid m" by (simp add: MergeValid_def)
    then have md: "merge_drain c comparator m = Some (Inr [])"
      by (rule merge_drain_invalid)
    have "\<forall>j < length ?its. \<not> Valid (?its ! j)"
      using less.prems None by (simp add: merge_inv_def Let_def)
    then have "\<forall>j < length ?its. child_records c (?its ! j) = []"
      by (simp add: child_records_invalid)
    then have "concat (map (child_records c) ?its) = []"
      by (rule concat_all_empty)
    then show ?thesis using md None by simp
  next
    case (Some i)
    from less.prems Some have i: "i < length ?its" "i \<notin> set ?h" "Valid (?its ! i)"
      and t: "\<forall>j < length ?its. drain c (?its ! j) \<noteq> None"
      and hv: "\<forall>j \<in> set ?h. j < length ?its \<and> Valid (?its ! j)"
      by (simp_all add: merge_inv_def Let_def)
    define r where "r = cur_blob_record (?its ! i)"
    have ti: "drain c (?its ! i) \<noteq> None" using t i(1) by simp
    from child_records_Valid[OF i(3) ti] obtain it where
      nx: "Next c (?its ! i) = Some it" and dt: "drain c it \<noteq> None"
      and cr: "child_records c (?its ! i) = r # child_records c it"
      unfolding r_def by blast
    define m2 where "m2 = (if Valid it
                         then m\<lparr>blob_file_iterators := ?its[i := it], min_heap := ?h @ [i]\<rparr>
                         else m\<lparr>blob_file_iterators := ?its[i := it]\<rparr>)"
    define m' where "m' = (if min_heap m2 \<noteq> [] then take_top comparator m2
                           else m2\<lparr>current := None\<rparr>)"
    have mn: "MergeNext c comparator m = Some (Inr m')"
      unfolding m'_def m2_def using MergeNext_unfold[OF Some nx, of comparator]
      by (simp add: Let_def)
    have hi2: "heap_inv c m2"
      unfolding m2_def by (rule push_inv[OF less.prems Some dt])
    have its2: "blob_file_iterators m2 = ?its[i := it]"
      by (simp add: m2_def)
    have its': "blob_file_iterators m' = ?its[i := it]"
      by (simp add: m'_def its2 take_top_fields)
    have inv': "merge_inv c m'"
      unfolding m'_def using take_top_inv[OF hi2] no_top_inv(1)[OF hi2] by simp
    have len: "length (concat (map (child_records c) (?its[i := it]))) + length (r # child_records c it) =
          length (concat (map (child_records c) ?its)) + length (child_records c it)"
      using length_concat_update[OF i(1), of "child_records c" it] cr by simp
    then have dec: "length (concat (map (child_records c) (blob_file_iterators m'))) <
                    length (concat (map (child_records c) ?its))"
      by (simp add: its')
    from less.hyps[OF dec inv', of ] obtain out where
      o: "merge_drain c comparator m' = Some (Inr out)"
         "mset out = mset (concat (map (child_records c) (blob_file_iterators m')))"
         "\<forall>i'. current m' = Some i' \<longrightarrow>
            out \<noteq> [] \<and> hd out = cur_blob_record (blob_file_iterators m' ! i')"
         "merge_sorted_inv c comparator m' \<longrightarrow> sorted_wrt (key_le comparator) out"
      by blast
    have mv: "MergeValid m"
      using less.prems Some by (rule merge_inv_MergeValid)
    have md: "merge_drain c comparator m = Some (Inr (r # out))"
      unfolding r_def by (rule merge_drain_step[OF mv Some mn o(1)])
    have ms: "mset (r # out) = mset (concat (map (child_records c) ?its))"
    proof -
      have "mset (concat (map (child_records c) (?its[i := it]))) + mset (r # child_records c it) =
            mset (concat (map (child_records c) ?its)) + mset (child_records c it)"
        using mset_concat_update[OF i(1), of "child_records c" it] cr by simp
      then have "mset (concat (map (child_records c) (?its[i := it]))) + {#r#} =
            mset (concat (map (child_records c) ?its))"
        by simp
      then show ?thesis using o(2) by (simp add: its')
    qed
    have srt: "sorted_wrt (key_le comparator) (r # out)" if si: "merge_sorted_inv c comparator m"
    proof -
      from si have cok: "comparator_ok comparator"
        and cs: "\<forall>j < length ?its. sorted_wrt (key_le comparator) (child_records c (?its ! j))"
        and hm: "\<forall>j \<in> set ?h. key_le comparator r (cur_blob_record (?its ! j))"
        using Some unfolding merge_sorted_inv_def Let_def r_def by blast+
      have tr: "\<And>a b d. key_le comparator a b \<Longrightarrow> key_le comparator b d \<Longrightarrow> key_le comparator a d"
        using cok unfolding comparator_ok_def key_le_def by blast
      have si_sorted: "sorted_wrt (key_le comparator) (r # child_records c it)"
        using cs i(1) cr by (metis)
      have cs': "\<forall>j < length (?its[i := it]).
                   sorted_wrt (key_le comparator) (child_records c (?its[i := it] ! j))"
      proof (intro allI impI)
        fix j assume "j < length (?its[i := it])"
        then have j: "j < length ?its" by simp
        show "sorted_wrt (key_le comparator) (child_records c (?its[i := it] ! j))"
        proof (cases "j = i")
          case True
          then show ?thesis using si_sorted j by simp
        next
          case False
          then show ?thesis using cs j by simp
        qed
      qed
      have i6: "\<forall>i'. current m' = Some i' \<longrightarrow>
           (\<forall>j \<in> set (min_heap m').
              key_le comparator (cur_blob_record (blob_file_iterators m' ! i'))
                (cur_blob_record (blob_file_iterators m' ! j)))"
      proof (cases "min_heap m2 \<noteq> []")
        case True
        then have "m' = take_top comparator m2" by (simp add: m'_def)
        then show ?thesis using take_top_sorted[OF cok True] by simp
      next
        case False
        then show ?thesis by (simp add: m'_def)
      qed
      have si': "merge_sorted_inv c comparator m'"
        unfolding merge_sorted_inv_def Let_def its'
        using cok cs' i6 unfolding its' by blast
      then have so: "sorted_wrt (key_le comparator) out"
        using o(4) by simp
      have hd_le: "key_le comparator r (hd out)" if ne: "out \<noteq> []"
      proof (cases "current m'")
        case None
        then have "\<not> MergeValid m'" by (simp add: MergeValid_def)
        then have "merge_drain c comparator m' = Some (Inr [])"
          by (rule merge_drain_invalid)
        then show ?thesis using o(1) ne by simp
      next
        case (Some i')
        then have ho: "hd out = cur_blob_record (?its[i := it] ! i')"
          using o(3) by (simp add: its')
        have h2ne: "min_heap m2 \<noteq> []"
          using Some by (auto simp: m'_def split: if_splits)
        then have i'top: "i' = heap_top comparator (blob_file_iterators m2) (min_heap m2)"
          using Some by (simp add: m'_def take_top_fields)
        have i'mem: "i' \<in> set (min_heap m2)"
          unfolding i'top using h2ne by (rule heap_top_mem)
        show ?thesis
        proof (cases "i' = i")
          case True
          then have vit: "Valid it"
            using i'mem i(2) by (auto simp: m2_def split: if_splits)
          from child_records_hd[OF vit dt] have
            "child_records c it \<noteq> []" "hd (child_records c it) = cur_blob_record it"
            by simp_all
          then have "key_le comparator r (cur_blob_record it)"
            using si_sorted by (cases "child_records c it") auto
          then show ?thesis using ho True i(1) by simp
        next
          case False
          then have "i' \<in> set ?h"
            using i'mem by (auto simp: m2_def split: if_splits)
          then have "key_le comparator r (cur_blob_record (?its ! i'))"
            using hm by simp
          then show ?thesis using ho False by simp
        qed
      qed
      show ?thesis
        using tr so hd_le by (rule sorted_wrt_hd_trans)
    qed
    show ?thesis
      using md ms srt Some unfolding r_def by auto
  qed
qed

subsection \<open>The merge of all children\<close>

lemma MergeSeek_loop_result:
  "\<forall>i \<in> set idx. i < length (blob_file_iterators m) \<and>
       SeekToFirst c (blob_file_iterators m ! i) \<noteq> None \<Longrightarrow>
   distinct idx \<Longrightarrow>
   \<exists>m'. MergeSeek_loop c idx m = Some m' \<and>
     length (blob_file_iterators m') = length (blob_file_iterators m) \<and>
     current m' = current m \<and> merge_status m' = merge_status m \<and>
     (\<forall>j < length (blob_file_iterators m).
        blob_file_iterators m' ! j =
          (if j \<in> set idx then the (SeekToFirst c (blob_file_iterators m ! j))
           else blob_file_iterators m ! j)) \<and>
     min_heap m' =
       min_heap m @ filter (\<lambda>i. Valid (the (SeekToFirst c (blob_file_iterators m ! i)))) idx"
proof (induction idx arbitrary: m)
  case Nil
  then show ?case by simp
next
  case (Cons i rest)
  let ?its = "blob_file_iterators m"
  from Cons.prems(1) obtain it where sk: "SeekToFirst c (?its ! i) = Some it" and i: "i < length ?its"
    by auto
  define m2 where "m2 = (if status it = OK \<and> Valid it
                    then m\<lparr>blob_file_iterators := ?its[i := it], min_heap := min_heap m @ [i]\<rparr>
                    else m\<lparr>blob_file_iterators := ?its[i := it]\<rparr>)"
  have unf: "MergeSeek_loop c (i # rest) m = MergeSeek_loop c rest m2"
    using sk by (simp add: m2_def Let_def)
  have f2: "blob_file_iterators m2 = ?its[i := it]" "current m2 = current m"
    "merge_status m2 = merge_status m"
    "min_heap m2 = min_heap m @ (if Valid it then [i] else [])"
    by (simp_all add: m2_def Valid_status)
  have inr: "i \<notin> set rest" "distinct rest"
    using Cons.prems(2) by simp_all
  have same: "\<And>j. j \<in> set rest \<Longrightarrow> blob_file_iterators m2 ! j = ?its ! j"
  proof -
    fix j assume "j \<in> set rest"
    then have "j \<noteq> i" using inr(1) by auto
    then show "blob_file_iterators m2 ! j = ?its ! j" by (simp add: f2(1))
  qed
  have p2: "\<forall>j \<in> set rest. j < length (blob_file_iterators m2) \<and>
       SeekToFirst c (blob_file_iterators m2 ! j) \<noteq> None"
    using Cons.prems(1) same by (simp add: f2(1))
  from Cons.IH[OF p2 inr(2)] obtain m' where
    r: "MergeSeek_loop c rest m2 = Some m'"
       "length (blob_file_iterators m') = length (blob_file_iterators m2)"
       "current m' = current m2" "merge_status m' = merge_status m2"
       "\<forall>j < length (blob_file_iterators m2).
        blob_file_iterators m' ! j =
          (if j \<in> set rest then the (SeekToFirst c (blob_file_iterators m2 ! j))
           else blob_file_iterators m2 ! j)"
       "min_heap m' =
          min_heap m2 @ filter (\<lambda>i. Valid (the (SeekToFirst c (blob_file_iterators m2 ! i)))) rest"
    by blast
  have fl: "filter (\<lambda>i. Valid (the (SeekToFirst c (blob_file_iterators m2 ! i)))) rest =
            filter (\<lambda>i. Valid (the (SeekToFirst c (?its ! i)))) rest"
    using same by (intro filter_cong) simp_all
  have nth: "\<forall>j < length ?its.
        blob_file_iterators m' ! j =
          (if j \<in> set (i # rest) then the (SeekToFirst c (?its ! j)) else ?its ! j)"
  proof (intro allI impI)
    fix j assume j: "j < length ?its"
    show "blob_file_iterators m' ! j =
          (if j \<in> set (i # rest) then the (SeekToFirst c (?its ! j)) else ?its ! j)"
    proof (cases "j = i")
      case True
      then show ?thesis using r(5) j inr(1) sk by (simp add: f2(1))
    next
      case False
      then show ?thesis using r(5) j same by (simp add: f2(1))
    qed
  qed
  have "min_heap m' =
       min_heap m @ filter (\<lambda>i. Valid (the (SeekToFirst c (?its ! i)))) (i # rest)"
    using r(6) sk by (simp add: fl f2(4))
  then show ?case
    using unf r(1-4) nth by (simp add: f2)
qed

lemma scan_all_parts:
  assumes "scan_all c it = Some (rs, t)"
  shows "SeekToFirst c it \<noteq> None \<and> drain c (the (SeekToFirst c it)) = Some (rs, t)"
  using assms by (auto simp: scan_all_def split: option.splits)

text \<open>
  C2. For every list of children whose own scans return, \<open>SeekToFirst\<close> followed by
  \<open>Next\<close> until \<open>Valid\<close> is false on the merge iterator returns without dereferencing a
  null \<^verbatim>\<open>current_\<close>, and emits exactly the multiset union of the children's records.
  When the comparator is total and transitive and each child's own keys are
  non-decreasing, the emitted keys are non-decreasing.
\<close>

theorem merge_emits_union_sorted:
  assumes "list_all2 (\<lambda>it rs. \<exists>t. scan_all c it = Some (rs, t)) its rss"
  shows "\<exists>out. merge_all c comparator its = Some (Inr out) \<and>
           mset out = mset (concat (map (map snd) rss)) \<and>
           (comparator_ok comparator \<and>
            (\<forall>rs \<in> set rss. sorted_wrt (key_le comparator) (map snd rs)) \<longrightarrow>
            sorted_wrt (key_le comparator) out)"
proof -
  define m0 where "m0 = new_BlobFileMergeIterator its"
  define n where "n = length its"
  have len: "length rss = n"
    using assms by (simp add: n_def list_all2_lengthD)
  have ch: "\<And>j. j < n \<Longrightarrow> SeekToFirst c (its ! j) \<noteq> None \<and>
              (\<exists>t. drain c (the (SeekToFirst c (its ! j))) = Some (rss ! j, t))"
  proof -
    fix j assume "j < n"
    then obtain t where "scan_all c (its ! j) = Some (rss ! j, t)"
      using assms by (auto simp: n_def list_all2_conv_all_nth)
    then show "SeekToFirst c (its ! j) \<noteq> None \<and>
              (\<exists>t. drain c (the (SeekToFirst c (its ! j))) = Some (rss ! j, t))"
      using scan_all_parts by blast
  qed
  have f0: "blob_file_iterators m0 = its" "min_heap m0 = []" "current m0 = None"
    "merge_status m0 = OK"
    by (simp_all add: m0_def new_BlobFileMergeIterator_def)
  have p: "\<forall>i \<in> set [0..<n]. i < length (blob_file_iterators m0) \<and>
       SeekToFirst c (blob_file_iterators m0 ! i) \<noteq> None"
    using ch by (simp add: f0 n_def)
  from MergeSeek_loop_result[OF p] obtain m1 where
    r: "MergeSeek_loop c [0..<n] m0 = Some m1"
       "length (blob_file_iterators m1) = n"
       "current m1 = None" "merge_status m1 = OK"
       "\<forall>j < n. blob_file_iterators m1 ! j = the (SeekToFirst c (its ! j))"
       "min_heap m1 = filter (\<lambda>i. Valid (the (SeekToFirst c (its ! i)))) [0..<n]"
    by (auto simp: f0 n_def)
  let ?its1 = "blob_file_iterators m1"
  have dr: "\<And>j. j < n \<Longrightarrow> \<exists>t. drain c (?its1 ! j) = Some (rss ! j, t)"
    using ch r(5) by simp
  have cr: "\<And>j. j < n \<Longrightarrow> child_records c (?its1 ! j) = map snd (rss ! j)"
  proof -
    fix j assume "j < n"
    then obtain t where "drain c (?its1 ! j) = Some (rss ! j, t)"
      using dr by blast
    then show "child_records c (?its1 ! j) = map snd (rss ! j)"
      by (simp add: child_records_def)
  qed
  have maps: "map (child_records c) ?its1 = map (map snd) rss"
    using cr r(2) len by (intro nth_equalityI) simp_all
  have hi: "heap_inv c m1"
  proof -
    have "\<forall>j \<in> set (min_heap m1). j < n \<and> Valid (?its1 ! j)"
      using r(5,6) by simp
    moreover have "\<forall>j < n. drain c (?its1 ! j) \<noteq> None"
      using dr by fastforce
    moreover have "\<forall>j < n. j \<notin> set (min_heap m1) \<longrightarrow> \<not> Valid (?its1 ! j)"
      using r(5,6) by simp
    moreover have "distinct (min_heap m1)"
      by (simp add: r(6))
    ultimately show ?thesis
      using r(2,4) by (simp add: heap_inv_def Let_def)
  qed
  define m where "m = (if min_heap m1 \<noteq> [] then take_top comparator m1
                       else m1\<lparr>merge_status := Aborted\<rparr>)"
  have sk: "MergeSeekToFirst c comparator m0 = Some m"
    using r(1) by (simp add: MergeSeekToFirst_def m_def f0 n_def)
  have its_m: "blob_file_iterators m = ?its1"
    by (simp add: m_def take_top_fields)
  have inv: "merge_inv c m"
  proof (cases "min_heap m1 \<noteq> []")
    case True
    then show ?thesis
      using take_top_inv[OF hi True] by (simp add: m_def)
  next
    case False
    then have e: "min_heap m1 = []" by simp
    have "m1\<lparr>current := None, merge_status := Aborted\<rparr> = m1\<lparr>merge_status := Aborted\<rparr>"
      using r(3) by simp
    then show ?thesis
      using no_top_inv(2)[OF hi e, of Aborted] False by (simp add: m_def)
  qed
  from merge_drain_correct[OF inv, of comparator] obtain out where
    o: "merge_drain c comparator m = Some (Inr out)"
       "mset out = mset (concat (map (child_records c) (blob_file_iterators m)))"
       "merge_sorted_inv c comparator m \<longrightarrow> sorted_wrt (key_le comparator) out"
    by blast
  have all: "merge_all c comparator its = Some (Inr out)"
    using sk o(1) by (simp add: merge_all_def m0_def)
  have ms: "mset out = mset (concat (map (map snd) rss))"
    using o(2) by (simp add: its_m maps)
  have srt: "sorted_wrt (key_le comparator) out"
    if cok: "comparator_ok comparator"
      and cs: "\<forall>rs \<in> set rss. sorted_wrt (key_le comparator) (map snd rs)"
  proof -
    have cs': "\<forall>j < length (blob_file_iterators m).
                 sorted_wrt (key_le comparator) (child_records c (blob_file_iterators m ! j))"
      using cs cr len by (simp add: its_m r(2))
    have i6: "\<forall>i. current m = Some i \<longrightarrow>
           (\<forall>j \<in> set (min_heap m).
              key_le comparator (cur_blob_record (blob_file_iterators m ! i))
                (cur_blob_record (blob_file_iterators m ! j)))"
    proof (cases "min_heap m1 \<noteq> []")
      case True
      then have "m = take_top comparator m1" by (simp add: m_def)
      then show ?thesis using take_top_sorted[OF cok True] by simp
    next
      case False
      then show ?thesis using r(3) by (simp add: m_def)
    qed
    have "merge_sorted_inv c comparator m"
      unfolding merge_sorted_inv_def Let_def using cok cs' i6 by blast
    then show ?thesis using o(3) by simp
  qed
  show ?thesis
    using all ms srt by blast
qed

section \<open>Scans, seeks and merges on blob files\<close>

subsection \<open>The example file\<close>

lemmas example_defs =
  example_iter_def example_file_def new_BlobFileIterator_def titan_c_def scenario_opts_def
  iter_1_def rec_A_def rec_B_def rec_C_def

lemmas eval_defs =
  SeekToFirst_def Next_def Init_def IterateForPrev_def PrefetchAndGet.simps readahead_def
  grow_readahead.simps GetBlobRecord_def Roundup_def Valid_def Let_def
  IterateForPrev_loop.simps

lemma Init_example:
  "Init titan_c (example_iter r1 r2 fs) =
     (True, (example_iter r1 r2 fs)\<lparr>status := fs, header_size := 16, end_of_blob_record := 64,
        block_size := 16, init := True\<rparr>)"
  by (simp add: Init_def example_iter_def example_file_def new_BlobFileIterator_def titan_c_def Let_def)

lemma consts_ok_titan: "consts_ok titan_c"
  by (simp add: consts_ok_def titan_c_def)

lemma readahead_ok_example: "readahead_ok titan_c (example_iter r1 r2 fs)"
  by (simp add: readahead_ok_def example_iter_def new_BlobFileIterator_def titan_c_def)

lemma wf_example: "wf_file titan_c (example_iter r1 r2 OK) (example_slots r1 r2)"
  unfolding wf_file_def Let_def Init_example
  by (simp add: example_iter_def example_file_def new_BlobFileIterator_def titan_c_def
      example_slots_def first_offset_def Let_def)

lemma scan_example:
  "\<exists>t. scan_all titan_c (example_iter r1 r2 fs) = Some ([(16, r1), (48, r2)], t)"
  by (simp add: scan_all_def drain.simps eval_defs example_iter_def example_file_def
      new_BlobFileIterator_def titan_c_def scenario_opts_def)

subsection \<open>Full scans\<close>

text \<open>
  C1. On a well-formed blob file, \<open>SeekToFirst\<close> followed by \<open>Next\<close> until \<open>Valid\<close> is
  false returns, and visits exactly the records of the slots with a non-zero payload
  length, each at its start offset: the offsets visited are strictly increasing, so no
  record is visited twice, and the records visited are those of the live slots in file
  order. The iterator the loop leaves is invalid, free of error, and its cursor equals
  the end-of-record-region boundary computed by \<open>Init\<close>.
\<close>

theorem scan_visits_every_live_record:
  assumes "consts_ok c" and "readahead_ok c s" and "\<not> init s" and "wf_file c s slots"
  shows "(\<exists>t. scan_all c s =
               Some (live_records c (unat (block_size (snd (Init c s))))
                       (first_offset (unat (block_size (snd (Init c s))))
                          (unat (header_size (snd (Init c s))))) slots, t) \<and>
             \<not> Valid t \<and> status t = OK \<and>
             iterate_offset t = end_of_blob_record (snd (Init c s)) \<and>
             end_of_blob_record t = end_of_blob_record (snd (Init c s))) \<and>
         sorted_wrt (<) (map fst
           (live_records c (unat (block_size (snd (Init c s))))
              (first_offset (unat (block_size (snd (Init c s))))
                 (unat (header_size (snd (Init c s))))) slots)) \<and>
         map snd
           (live_records c (unat (block_size (snd (Init c s))))
              (first_offset (unat (block_size (snd (Init c s))))
                 (unat (header_size (snd (Init c s))))) slots) =
         concat (map (\<lambda>sl. case sl of Live n r \<Rightarrow> [r] | Hole \<Rightarrow> []) slots)"
  using scan_visits_live_records[OF assms] by blast

text \<open>On the example file the scan visits the records at offsets 16 and 48 and ends at 64.\<close>

theorem scan_visits_every_live_record_witness:
  "\<exists>t. scan_all titan_c iter_1 = Some ([(16, rec_A), (48, rec_B)], t) \<and>
       \<not> Valid t \<and> iterate_offset t = 64"
proof -
  have ni: "\<not> init iter_1"
    by (simp add: iter_1_def example_iter_def new_BlobFileIterator_def)
  have wf: "wf_file titan_c iter_1 (example_slots rec_A rec_B)"
    unfolding iter_1_def by (rule wf_example)
  have ra: "readahead_ok titan_c iter_1"
    unfolding iter_1_def by (rule readahead_ok_example)
  have lr: "live_records titan_c (unat (block_size (snd (Init titan_c iter_1))))
              (first_offset (unat (block_size (snd (Init titan_c iter_1))))
                 (unat (header_size (snd (Init titan_c iter_1))))) (example_slots rec_A rec_B) =
            [(16, rec_A), (48, rec_B)]"
    unfolding iter_1_def Init_example
    by (simp add: example_slots_def first_offset_def titan_c_def Let_def)
  have e: "end_of_blob_record (snd (Init titan_c iter_1)) = 64"
    by (simp add: iter_1_def Init_example)
  from scan_visits_every_live_record[OF consts_ok_titan ra ni wf]
  show ?thesis
    unfolding lr e by blast
qed

subsection \<open>Positioning by offset\<close>





subsection \<open>Status, initialisation, hole-punch markers, termination\<close>

text \<open>
  On the example file \<open>IterateForPrev 64\<close> sets \<open>InvalidArgument\<close>; a following
  \<open>SeekToFirst\<close> clears the status and the iterator is valid on the first record.
\<close>

theorem status_reset_counterexample:
  "map_option observe (IterateForPrev titan_c 64 iter_1) =
     Some (InvalidArgument, False, 0, \<lparr>key = [], val = []\<rparr>) \<and>
   map_option observe (Option.bind (IterateForPrev titan_c 64 iter_1) (SeekToFirst titan_c)) =
     Some (OK, True, 16, rec_A)"
  by (simp add: observe_def eval_defs example_defs)

lemma Init_failure_idem:
  assumes "\<not> fst (Init c s)"
  shows "Init c (snd (Init c s)) = (False, snd (Init c s))"
proof -
  obtain st2 h where dh: "decode_header (file_reader s) = (st2, h)"
    by (cases "decode_header (file_reader s)")
  obtain st5 ft where df:
    "decode_footer (file_reader s) (iter_file_size s - kFooterEncodedLength c) = (st5, ft)"
    by (cases "decode_footer (file_reader s) (iter_file_size s - kFooterEncodedLength c)")
  obtain st7 dsz where di: "init_uncompression_dict (file_reader s) ft = (st7, dsz)"
    by (cases "init_uncompression_dict (file_reader s) ft")
  show ?thesis
    using assms
    by (cases "meta_index_handle ft")
       (auto simp: Init_def Let_def dh df di split: if_splits)
qed

lemma seek_resets_status:
  assumes "init s"
  shows "SeekToFirst c s =
           PrefetchAndGet c
             (s\<lparr>status := OK,
                iterate_offset :=
                  (if block_size s \<noteq> 0 then Roundup (header_size s) (block_size s)
                   else header_size s)\<rparr>)"
    and "SeekToFirst c s = SeekToFirst c (s\<lparr>status := OK\<rparr>)"
    and "IterateForPrev c w s = IterateForPrev c w (s\<lparr>status := OK\<rparr>)"
  using assms by (simp_all add: SeekToFirst_def IterateForPrev_def Let_def)

lemma SeekToFirst_empty_region:
  assumes "init s"
    and "\<not> (if block_size s \<noteq> 0 then Roundup (header_size s) (block_size s)
            else header_size s) < end_of_blob_record s"
  shows "SeekToFirst c s =
           Some (s\<lparr>status := OK,
                   iterate_offset :=
                     (if block_size s \<noteq> 0 then Roundup (header_size s) (block_size s)
                      else header_size s),
                   valid := False\<rparr>)"
  unfolding seek_resets_status(1)[OF assms(1)]
  by (subst PrefetchAndGet_end) (use assms(2) in simp_all)

lemma IterateForPrev_out_of_bound_init:
  assumes "init s" and "end_of_blob_record s \<le> w"
  shows "IterateForPrev c w s = Some (s\<lparr>status := InvalidArgument, iterate_offset := w\<rparr>)"
  using assms by (simp add: IterateForPrev_def Let_def)

lemma IterateForPrev_before_first:
  assumes "init s" and "w < end_of_blob_record s"
    and "w \<le> (if block_size s \<noteq> 0 then Roundup (header_size s) (block_size s)
              else header_size s)"
  shows "IterateForPrev c w s =
           Some (s\<lparr>status := OK,
                   iterate_offset :=
                     (if block_size s \<noteq> 0 then Roundup (header_size s) (block_size s)
                      else header_size s),
                   valid := False\<rparr>)"
proof -
  have nl: "\<not> end_of_blob_record s \<le> w" using assms(2) by simp
  show ?thesis
  proof (cases "block_size s = 0")
    case True
    have nlt: "\<not> header_size s < w" using assms(3) True by simp
    have loop: "IterateForPrev_loop c w 0 (s\<lparr>status := OK, iterate_offset := header_size s\<rparr>) =
                  Some (True, 0, s\<lparr>status := OK, iterate_offset := header_size s\<rparr>)"
      using nlt by (subst IterateForPrev_loop.simps) simp
    show ?thesis
      using assms(1) nl nlt True
      by (simp add: IterateForPrev_def Let_def loop)
  next
    case False
    then have pos: "0 < block_size s" by (simp add: word_gt_0)
    have nlt: "\<not> Roundup (header_size s) (block_size s) < w" using assms(3) False by simp
    have loop: "IterateForPrev_loop c w 0
                  (s\<lparr>status := OK, iterate_offset := Roundup (header_size s) (block_size s)\<rparr>) =
                Some (True, 0,
                  s\<lparr>status := OK, iterate_offset := Roundup (header_size s) (block_size s)\<rparr>)"
      using nlt by (subst IterateForPrev_loop.simps) simp
    show ?thesis
      using assms(1) nl nlt False pos
      by (simp add: IterateForPrev_def Let_def loop)
  qed
qed

lemma SeekToFirst_readable_region:
  assumes "consts_ok c" and "readahead_ok c s" and "init s"
    and "slots_at c (file_reader s) (unat (block_size s))
           (unat (if block_size s \<noteq> 0 then Roundup (header_size s) (block_size s)
                  else header_size s))
           slots (unat (end_of_blob_record s))"
    and "unat (end_of_blob_record s) + unat (block_size s) < 2 ^ 64"
  shows "\<exists>s'. SeekToFirst c s = Some s' \<and> status s' = OK"
proof -
  define s0 where "s0 = s\<lparr>status := OK,
                iterate_offset :=
                  (if block_size s \<noteq> 0 then Roundup (header_size s) (block_size s)
                   else header_size s)\<rparr>"
  have a: "readahead_ok c s0" "status s0 = OK"
    using assms(2) by (simp_all add: s0_def readahead_ok_def)
  have b: "slots_at c (file_reader s0) (unat (block_size s0)) (unat (iterate_offset s0)) slots
           (unat (end_of_blob_record s0))"
    using assms(4) by (simp add: s0_def)
  have d: "unat (end_of_blob_record s0) + unat (block_size s0) < 2 ^ 64"
    using assms(5) by (simp add: s0_def)
  from PrefetchAndGet_slots[OF assms(1) a b d] obtain s' where
    "PrefetchAndGet c s0 = Some s'" "status s' = OK"
    by blast
  then show ?thesis
    unfolding seek_resets_status(1)[OF assms(3)] s0_def[symmetric] by blast
qed

text \<open>
  C4. \<open>Valid\<close> is false whenever the status is non-ok. When \<open>Init\<close> fails on an
  uninitialised iterator, the status it leaves is non-ok and the iterator stays
  uninitialised; \<open>SeekToFirst\<close> and \<open>IterateForPrev\<close>, on the iterator or on what the
  failed \<open>Init\<close> left, run \<open>Init\<close> again and leave that same state, so the status stays
  non-ok and \<open>Valid\<close> stays false. On an initialised iterator \<open>SeekToFirst\<close> and
  \<open>IterateForPrev\<close> reset the status before they scan: each gives the same result as from
  the state with status ok, and \<open>SeekToFirst\<close> is \<open>PrefetchAndGet\<close> from the first
  record offset with status ok. After \<open>SeekToFirst\<close> the status is ok when the record
  region is empty and when it is a readable sequence of slots. After \<open>IterateForPrev\<close>
  the status is \<open>InvalidArgument\<close> when the target is at or beyond the boundary, and ok
  when the target is inside the region and at or before the first record offset.
\<close>

theorem status_blocks_Valid:
  "(status s \<noteq> OK \<longrightarrow> \<not> Valid s) \<and>
   (\<not> init s \<and> \<not> fst (Init c s) \<longrightarrow>
      status (snd (Init c s)) \<noteq> OK \<and> \<not> init (snd (Init c s)) \<and>
      \<not> Valid (snd (Init c s)) \<and>
      SeekToFirst c s = Some (snd (Init c s)) \<and>
      IterateForPrev c w s = Some (snd (Init c s)) \<and>
      SeekToFirst c (snd (Init c s)) = Some (snd (Init c s)) \<and>
      IterateForPrev c w (snd (Init c s)) = Some (snd (Init c s))) \<and>
   (init s \<longrightarrow>
      SeekToFirst c s = SeekToFirst c (s\<lparr>status := OK\<rparr>) \<and>
      IterateForPrev c w s = IterateForPrev c w (s\<lparr>status := OK\<rparr>) \<and>
      SeekToFirst c s = PrefetchAndGet c (s\<lparr>status := OK, iterate_offset := seek_start s\<rparr>) \<and>
      (\<not> seek_start s < end_of_blob_record s \<longrightarrow>
         SeekToFirst c s =
           Some (s\<lparr>status := OK, iterate_offset := seek_start s, valid := False\<rparr>)) \<and>
      (consts_ok c \<and> readahead_ok c s \<and>
       slots_at c (file_reader s) (unat (block_size s)) (unat (seek_start s)) slots
         (unat (end_of_blob_record s)) \<and>
       unat (end_of_blob_record s) + unat (block_size s) < 2 ^ 64 \<longrightarrow>
         (\<exists>s'. SeekToFirst c s = Some s' \<and> status s' = OK)) \<and>
      (end_of_blob_record s \<le> w \<longrightarrow>
         IterateForPrev c w s = Some (s\<lparr>status := InvalidArgument, iterate_offset := w\<rparr>)) \<and>
      (w < end_of_blob_record s \<and> w \<le> seek_start s \<longrightarrow>
         IterateForPrev c w s =
           Some (s\<lparr>status := OK, iterate_offset := seek_start s, valid := False\<rparr>)))"
proof (intro conjI impI)
  assume "status s \<noteq> OK"
  then show "\<not> Valid s" by (simp add: Valid_def)
next
  assume a: "\<not> init s \<and> \<not> fst (Init c s)"
  then have ni: "\<not> init s" and nf: "\<not> fst (Init c s)" by simp_all
  have ieq: "Init c s = (False, snd (Init c s))"
    using nf by (simp add: prod_eq_iff)
  have st: "status (snd (Init c s)) \<noteq> OK" and ni': "\<not> init (snd (Init c s))"
    using Init_failure_status[OF nf] ni by simp_all
  have idem: "Init c (snd (Init c s)) = (False, snd (Init c s))"
    using nf by (rule Init_failure_idem)
  show "status (snd (Init c s)) \<noteq> OK" by (rule st)
  show "\<not> init (snd (Init c s))" by (rule ni')
  show "\<not> Valid (snd (Init c s))" using st by (simp add: Valid_def)
  show "SeekToFirst c s = Some (snd (Init c s))"
    using ni by (subst SeekToFirst_def, subst ieq) simp
  show "IterateForPrev c w s = Some (snd (Init c s))"
    using ni by (subst IterateForPrev_def, subst ieq) simp
  show "SeekToFirst c (snd (Init c s)) = Some (snd (Init c s))"
    using ni' by (subst SeekToFirst_def, subst idem) simp
  show "IterateForPrev c w (snd (Init c s)) = Some (snd (Init c s))"
    using ni' by (subst IterateForPrev_def, subst idem) simp
next
  assume i: "init s"
  show "SeekToFirst c s = SeekToFirst c (s\<lparr>status := OK\<rparr>)"
    by (rule seek_resets_status(2)[OF i])
  show "IterateForPrev c w s = IterateForPrev c w (s\<lparr>status := OK\<rparr>)"
    by (rule seek_resets_status(3)[OF i])
  show "SeekToFirst c s = PrefetchAndGet c (s\<lparr>status := OK, iterate_offset := seek_start s\<rparr>)"
    unfolding seek_start_def by (rule seek_resets_status(1)[OF i])
  {
    assume "\<not> seek_start s < end_of_blob_record s"
    then show "SeekToFirst c s =
           Some (s\<lparr>status := OK, iterate_offset := seek_start s, valid := False\<rparr>)"
      unfolding seek_start_def by (rule SeekToFirst_empty_region[OF i])
  }
  {
    assume h: "consts_ok c \<and> readahead_ok c s \<and>
       slots_at c (file_reader s) (unat (block_size s)) (unat (seek_start s)) slots
         (unat (end_of_blob_record s)) \<and>
       unat (end_of_blob_record s) + unat (block_size s) < 2 ^ 64"
    then have h1: "consts_ok c" and h2: "readahead_ok c s"
      and h3: "slots_at c (file_reader s) (unat (block_size s))
           (unat (if block_size s \<noteq> 0 then Roundup (header_size s) (block_size s)
                  else header_size s))
           slots (unat (end_of_blob_record s))"
      and h4: "unat (end_of_blob_record s) + unat (block_size s) < 2 ^ 64"
      unfolding seek_start_def by simp_all
    show "\<exists>s'. SeekToFirst c s = Some s' \<and> status s' = OK"
      by (rule SeekToFirst_readable_region[OF h1 h2 i h3 h4])
  }
  {
    assume "end_of_blob_record s \<le> w"
    then show "IterateForPrev c w s =
        Some (s\<lparr>status := InvalidArgument, iterate_offset := w\<rparr>)"
      by (rule IterateForPrev_out_of_bound_init[OF i])
  }
  {
    assume "w < end_of_blob_record s \<and> w \<le> seek_start s"
    then have "w < end_of_blob_record s"
      and "w \<le> (if block_size s \<noteq> 0 then Roundup (header_size s) (block_size s)
              else header_size s)"
      unfolding seek_start_def by simp_all
    then show "IterateForPrev c w s =
           Some (s\<lparr>status := OK, iterate_offset := seek_start s, valid := False\<rparr>)"
      unfolding seek_start_def by (rule IterateForPrev_before_first[OF i])
  }
qed

lemma Init_broken: "Init titan_c broken_iter = (False, broken_iter\<lparr>status := IOError\<rparr>)"
  by (simp add: Init_def broken_iter_def example_file_def new_BlobFileIterator_def Let_def)

lemma after_bad_seek_eq:
  "after_bad_seek =
     iter_1\<lparr>status := InvalidArgument, header_size := 16, end_of_blob_record := 64,
        block_size := 16, init := True, iterate_offset := 64\<rparr>"
  unfolding after_bad_seek_def iter_1_def Init_example by simp

lemma after_bad_seek_reached:
  "IterateForPrev titan_c 64 iter_1 = Some after_bad_seek"
  unfolding after_bad_seek_eq
  by (simp add: IterateForPrev_def iter_1_def Init_example Let_def)
    (simp add: example_defs)

lemma after_bad_seek_fields:
  "init after_bad_seek" "status after_bad_seek = InvalidArgument"
  "seek_start after_bad_seek = 16" "end_of_blob_record after_bad_seek = 64"
  "block_size after_bad_seek = 16" "readahead_ok titan_c after_bad_seek"
  "slots_at titan_c (file_reader after_bad_seek) 16 16 (example_slots rec_A rec_B) 64"
  unfolding after_bad_seek_eq
  by (simp_all add: seek_start_def Roundup_def readahead_ok_def example_defs example_slots_def
      Let_def)

text \<open>
  The reader whose header read fails; and the initialised iterator that an
  out-of-bound \<open>IterateForPrev\<close> left with \<open>InvalidArgument\<close>, on which \<open>SeekToFirst\<close> and
  \<open>IterateForPrev 16\<close> give status ok.
\<close>

theorem status_blocks_Valid_witness:
  "SeekToFirst titan_c broken_iter = Some (broken_iter\<lparr>status := IOError\<rparr>) \<and>
   IterateForPrev titan_c 20 (broken_iter\<lparr>status := IOError\<rparr>) =
     Some (broken_iter\<lparr>status := IOError\<rparr>) \<and>
   \<not> Valid (broken_iter\<lparr>status := IOError\<rparr>) \<and>
   status after_bad_seek = InvalidArgument \<and>
   (\<exists>s'. SeekToFirst titan_c after_bad_seek = Some s' \<and> status s' = OK) \<and>
   IterateForPrev titan_c 16 after_bad_seek =
     Some (after_bad_seek\<lparr>status := OK, iterate_offset := 16, valid := False\<rparr>) \<and>
   IterateForPrev titan_c 64 after_bad_seek =
     Some (after_bad_seek\<lparr>status := InvalidArgument, iterate_offset := 64\<rparr>)"
proof -
  have h: "\<not> init broken_iter \<and> \<not> fst (Init titan_c broken_iter)"
    by (simp add: Init_broken) (simp add: broken_iter_def new_BlobFileIterator_def)
  from status_blocks_Valid[of broken_iter titan_c 20] h
  have 1: "SeekToFirst titan_c broken_iter = Some (broken_iter\<lparr>status := IOError\<rparr>) \<and>
   IterateForPrev titan_c 20 (broken_iter\<lparr>status := IOError\<rparr>) =
     Some (broken_iter\<lparr>status := IOError\<rparr>) \<and>
   \<not> Valid (broken_iter\<lparr>status := IOError\<rparr>)"
    by (simp add: Init_broken)
  note th = status_blocks_Valid[of after_bad_seek titan_c 16 "example_slots rec_A rec_B",
      THEN conjunct2, THEN conjunct2, THEN mp, OF after_bad_seek_fields(1)]
  have 2: "\<exists>s'. SeekToFirst titan_c after_bad_seek = Some s' \<and> status s' = OK"
    using th[THEN conjunct2, THEN conjunct2, THEN conjunct2, THEN conjunct2, THEN conjunct1]
      consts_ok_titan
    by (simp add: after_bad_seek_fields)
  have 3: "IterateForPrev titan_c 16 after_bad_seek =
     Some (after_bad_seek\<lparr>status := OK, iterate_offset := 16, valid := False\<rparr>)"
    using th[THEN conjunct2, THEN conjunct2, THEN conjunct2, THEN conjunct2, THEN conjunct2,
        THEN conjunct2]
    by (simp add: after_bad_seek_fields)
  have 4: "IterateForPrev titan_c 64 after_bad_seek =
     Some (after_bad_seek\<lparr>status := InvalidArgument, iterate_offset := 64\<rparr>)"
    using status_blocks_Valid[of after_bad_seek titan_c 64 "example_slots rec_A rec_B",
      THEN conjunct2, THEN conjunct2, THEN mp, OF after_bad_seek_fields(1),
      THEN conjunct2, THEN conjunct2, THEN conjunct2, THEN conjunct2, THEN conjunct2,
      THEN conjunct1]
    by (simp add: after_bad_seek_fields)
  from 1 2 3 4 after_bad_seek_fields(2) show ?thesis
    by blast
qed

text \<open>
  C5. On the example file with a footer that fails to decode, \<open>Init\<close> succeeds and
  leaves the status \<open>Corruption\<close>; \<open>SeekToFirst\<close> then clears the status and the iterator
  is valid on the first record.
\<close>

theorem Init_ignores_footer_decode_failure:
  "fst (Init titan_c (example_iter rec_A rec_B Corruption)) \<and>
   status (snd (Init titan_c (example_iter rec_A rec_B Corruption))) = Corruption \<and>
   map_option observe (SeekToFirst titan_c (example_iter rec_A rec_B Corruption)) =
     Some (OK, True, 16, rec_A)"
  by (simp add: observe_def eval_defs example_defs)

lemma Init_fails_on_checked_steps:
  assumes "read_header (file_reader s) \<noteq> OK \<or>
           fst (decode_header (file_reader s)) \<noteq> OK \<or>
           read_footer (file_reader s) (iter_file_size s - kFooterEncodedLength c) \<noteq> OK \<or>
           (flags (snd (decode_header (file_reader s))) AND kHasUncompressionDictionary c \<noteq> 0 \<and>
            fst (init_uncompression_dict (file_reader s)
                  (snd (decode_footer (file_reader s)
                         (iter_file_size s - kFooterEncodedLength c)))) \<noteq> OK)"
  shows "\<not> fst (Init c s) \<and> status (snd (Init c s)) \<noteq> OK"
proof -
  obtain st2 h where dh: "decode_header (file_reader s) = (st2, h)"
    by (cases "decode_header (file_reader s)")
  obtain st5 ft where df:
    "decode_footer (file_reader s) (iter_file_size s - kFooterEncodedLength c) = (st5, ft)"
    by (cases "decode_footer (file_reader s) (iter_file_size s - kFooterEncodedLength c)")
  obtain st7 dsz where di: "init_uncompression_dict (file_reader s) ft = (st7, dsz)"
    by (cases "init_uncompression_dict (file_reader s) ft")
  show ?thesis
    using assms
    by (cases "meta_index_handle ft")
       (auto simp: Init_def Let_def dh df di split: if_splits)
qed

lemma PrefetchAndGet_hole_general:
  assumes "iterate_offset s < end_of_blob_record s"
    and "readahead c s = Some sa"
    and "read_record_header (file_reader s) (iterate_offset s) = (OK, 0)"
  shows "GetBlobRecord c sa = (False, sa\<lparr>status := OK\<rparr>) \<and>
         (\<exists>s1. PrefetchAndGet c s = PrefetchAndGet c s1 \<and>
            iterate_offset s1 = iterate_offset s + block_size s \<and> status s1 = OK \<and>
            valid s1 = valid s \<and> cur_blob_record s1 = cur_blob_record s \<and>
            cur_record_offset s1 = cur_record_offset s \<and>
            cur_record_size s1 = cur_record_size s \<and> same_file s s1)"
proof -
  from readahead_frame[OF assms(2)] obtain b e z where
    sa: "sa = s\<lparr>readahead_begin_offset := b, readahead_end_offset := e, readahead_size := z\<rparr>"
    by blast
  have g: "GetBlobRecord c sa = (False, sa\<lparr>status := OK\<rparr>)"
    by (rule GetBlobRecord_hole) (simp add: sa assms(3))
  define s3 where "s3 = (if readahead_end_offset (sa\<lparr>status := OK\<rparr>) < iterate_offset (sa\<lparr>status := OK\<rparr>)
                            then sa\<lparr>status := OK\<rparr>\<lparr>readahead_end_offset := iterate_offset (sa\<lparr>status := OK\<rparr>)\<rparr>
                            else sa\<lparr>status := OK\<rparr>)"
  define s1 where "s1 = s3\<lparr>iterate_offset := iterate_offset s3 + block_size s3\<rparr>"
  have st3: "status s3 = OK" by (simp add: s3_def)
  have "PrefetchAndGet c s = PrefetchAndGet c s1"
    using assms(1,2) g
    by (subst PrefetchAndGet.simps) (simp add: s1_def s3_def Let_def)
  moreover have "iterate_offset s1 = iterate_offset s + block_size s" "status s1 = OK"
    "valid s1 = valid s" "cur_blob_record s1 = cur_blob_record s"
    "cur_record_offset s1 = cur_record_offset s" "cur_record_size s1 = cur_record_size s"
    "same_file s s1"
    by (simp_all add: s1_def s3_def sa same_file_def)
  ultimately show ?thesis using g by blast
qed

lemma PrefetchAndGet_hole_next:
  assumes "iterate_offset s < end_of_blob_record s"
    and "readahead c s = Some sa"
    and "read_record_header (file_reader s) (iterate_offset s) = (OK, 0)"
  shows "PrefetchAndGet c s =
           PrefetchAndGet c
             (sa\<lparr>status := OK,
                 readahead_end_offset := max (readahead_end_offset sa) (iterate_offset s),
                 iterate_offset := iterate_offset s + block_size s\<rparr>)"
    and "same_file s sa" and "iterate_offset sa = iterate_offset s"
    and "valid sa = valid s" and "cur_blob_record sa = cur_blob_record s"
    and "cur_record_offset sa = cur_record_offset s"
    and "cur_record_size sa = cur_record_size s"
proof -
  from readahead_frame[OF assms(2)] obtain b e z where
    sa: "sa = s\<lparr>readahead_begin_offset := b, readahead_end_offset := e, readahead_size := z\<rparr>"
    by blast
  have g: "GetBlobRecord c sa = (False, sa\<lparr>status := OK\<rparr>)"
    by (rule GetBlobRecord_hole) (simp add: sa assms(3))
  have f: "iterate_offset sa = iterate_offset s" "block_size sa = block_size s"
    by (simp_all add: sa)
  show "PrefetchAndGet c s =
           PrefetchAndGet c
             (sa\<lparr>status := OK,
                 readahead_end_offset := max (readahead_end_offset sa) (iterate_offset s),
                 iterate_offset := iterate_offset s + block_size s\<rparr>)"
  proof (cases "readahead_end_offset sa < iterate_offset sa")
    case True
    then have m: "max (readahead_end_offset sa) (iterate_offset s) = iterate_offset s"
      using True f by (auto simp: max_def)
    show ?thesis
      using assms(1,2) g True unfolding m
      by (subst PrefetchAndGet.simps) (simp add: Let_def f)
  next
    case False
    then have m: "max (readahead_end_offset sa) (iterate_offset s) = readahead_end_offset sa"
      using False f by (auto simp: max_def)
    have id: "sa\<lparr>status := OK, readahead_end_offset := readahead_end_offset sa,
                 iterate_offset := iterate_offset s + block_size s\<rparr> =
              sa\<lparr>status := OK, iterate_offset := iterate_offset s + block_size s\<rparr>"
      by simp
    show ?thesis
      using assms(1,2) g False unfolding m id
      by (subst PrefetchAndGet.simps) (simp add: Let_def f)
  qed
  show "same_file s sa" "iterate_offset sa = iterate_offset s"
    "valid sa = valid s" "cur_blob_record sa = cur_blob_record s"
    "cur_record_offset sa = cur_record_offset s"
    "cur_record_size sa = cur_record_size s"
    by (simp_all add: sa same_file_def)
qed

lemma PrefetchAndGet_error_step:
  assumes "consts_ok c" and "readahead_ok c s"
    and "iterate_offset s < end_of_blob_record s"
    and "fst (read_record_header (file_reader s) (iterate_offset s)) \<noteq> OK"
  shows "\<exists>s1. PrefetchAndGet c s = Some s1 \<and> same_file s s1 \<and>
           status s1 = fst (read_record_header (file_reader s) (iterate_offset s)) \<and>
           iterate_offset s1 = iterate_offset s \<and> valid s1 = valid s \<and>
           cur_blob_record s1 = cur_blob_record s \<and>
           cur_record_offset s1 = cur_record_offset s"
proof -
  from readahead_Some[OF assms(1,2)] obtain b e z where
    ra: "readahead c s =
           Some (s\<lparr>readahead_begin_offset := b, readahead_end_offset := e, readahead_size := z\<rparr>)"
    by blast
  define sa where "sa = s\<lparr>readahead_begin_offset := b, readahead_end_offset := e, readahead_size := z\<rparr>"
  define st where "st = fst (read_record_header (file_reader s) (iterate_offset s))"
  obtain x where rh: "read_record_header (file_reader s) (iterate_offset s) = (st, x)"
    unfolding st_def by (cases "read_record_header (file_reader s) (iterate_offset s)") simp
  have ne: "st \<noteq> OK" using assms(4) by (simp add: st_def)
  have g: "GetBlobRecord c sa = (False, sa\<lparr>status := st\<rparr>)"
    using ne by (simp add: GetBlobRecord_def Let_def sa_def rh)
  define s3 where "s3 = (if readahead_end_offset (sa\<lparr>status := st\<rparr>) < iterate_offset (sa\<lparr>status := st\<rparr>)
                            then sa\<lparr>status := st\<rparr>\<lparr>readahead_end_offset := iterate_offset (sa\<lparr>status := st\<rparr>)\<rparr>
                            else sa\<lparr>status := st\<rparr>)"
  have st3: "status s3 = st" by (simp add: s3_def)
  have "PrefetchAndGet c s = Some s3"
    using assms(3) ra g st3 ne
    by (subst PrefetchAndGet.simps) (simp add: sa_def[symmetric] s3_def Let_def)
  moreover have "same_file s s3" "iterate_offset s3 = iterate_offset s" "valid s3 = valid s"
    "cur_blob_record s3 = cur_blob_record s" "cur_record_offset s3 = cur_record_offset s"
    by (simp_all add: s3_def sa_def same_file_def)
  ultimately show ?thesis using st3 unfolding st_def by blast
qed

lemma PrefetchAndGet_hole_then_live:
  assumes "consts_ok c" and "readahead_ok c s"
    and "iterate_offset s < end_of_blob_record s"
    and "read_record_header (file_reader s) (iterate_offset s) = (OK, 0)"
    and "iterate_offset s + block_size s < end_of_blob_record s"
    and "slot_ok c (file_reader s) bs (unat (iterate_offset s + block_size s)) (Live n r)"
  shows "\<exists>s'. PrefetchAndGet c s = Some s' \<and> status s' = OK \<and> valid s' \<and>
           cur_blob_record s' = r \<and> cur_record_offset s' = iterate_offset s + block_size s"
proof -
  from PrefetchAndGet_hole_step[OF assms(1-4)] obtain s1 where
    s1: "PrefetchAndGet c s = PrefetchAndGet c s1" "same_file s s1" "readahead_ok c s1"
      "iterate_offset s1 = iterate_offset s + block_size s"
    by blast
  have lt: "iterate_offset s1 < end_of_blob_record s1"
    using assms(5) s1(2,4) by (simp add: same_file_def)
  have sl: "slot_ok c (file_reader s1) bs (unat (iterate_offset s1)) (Live n r)"
    using assms(6) s1(2,4) by (simp add: same_file_def)
  from PrefetchAndGet_live_step[OF assms(1) s1(3) lt sl] s1(1,4)
  show ?thesis by auto
qed

lemma PrefetchAndGet_hole_then_error:
  assumes "consts_ok c" and "readahead_ok c s"
    and "iterate_offset s < end_of_blob_record s"
    and "read_record_header (file_reader s) (iterate_offset s) = (OK, 0)"
    and "iterate_offset s + block_size s < end_of_blob_record s"
    and "fst (read_record_header (file_reader s) (iterate_offset s + block_size s)) \<noteq> OK"
  shows "\<exists>s'. PrefetchAndGet c s = Some s' \<and>
           status s' = fst (read_record_header (file_reader s) (iterate_offset s + block_size s)) \<and>
           iterate_offset s' = iterate_offset s + block_size s \<and> valid s' = valid s \<and>
           cur_blob_record s' = cur_blob_record s"
proof -
  from PrefetchAndGet_hole_step[OF assms(1-4)] obtain s1 where
    s1: "PrefetchAndGet c s = PrefetchAndGet c s1" "same_file s s1" "readahead_ok c s1"
      "iterate_offset s1 = iterate_offset s + block_size s" "valid s1 = valid s"
      "cur_blob_record s1 = cur_blob_record s"
    by blast
  have lt: "iterate_offset s1 < end_of_blob_record s1"
    using assms(5) s1(2,4) by (simp add: same_file_def)
  have er: "fst (read_record_header (file_reader s1) (iterate_offset s1)) \<noteq> OK"
    using assms(6) s1(2,4) by (simp add: same_file_def)
  from PrefetchAndGet_error_step[OF assms(1) s1(3) lt er] obtain s' where
    "PrefetchAndGet c s1 = Some s'"
    "status s' = fst (read_record_header (file_reader s1) (iterate_offset s1))"
    "iterate_offset s' = iterate_offset s1" "valid s' = valid s1"
    "cur_blob_record s' = cur_blob_record s1"
    by blast
  then show ?thesis
    using s1 by (auto simp: same_file_def)
qed

text \<open>
  C6. When the cursor is inside the record region and the record header read there has
  payload length 0, \<open>GetBlobRecord\<close> produces no record and leaves the status ok, and
  \<open>PrefetchAndGet\<close> goes on with its next iteration from the state after the read-ahead
  step with status ok and the cursor advanced by exactly \<open>block_size\<close>; the validity
  flag and the current record are unchanged. So when the advanced cursor is at or
  beyond the boundary, \<open>PrefetchAndGet\<close> returns invalid, with status ok and the cursor
  there; when a live record starts at the advanced cursor, it returns valid on that
  record, at that offset; and when the header read there fails, it returns with that
  error and the cursor there.
\<close>

theorem hole_punch_marker_is_skipped:
  assumes "iterate_offset s < end_of_blob_record s"
    and "readahead c s = Some sa"
    and "read_record_header (file_reader s) (iterate_offset s) = (OK, 0)"
  shows "GetBlobRecord c sa = (False, sa\<lparr>status := OK\<rparr>) \<and>
         PrefetchAndGet c s =
           PrefetchAndGet c
             (sa\<lparr>status := OK,
                 readahead_end_offset := max (readahead_end_offset sa) (iterate_offset s),
                 iterate_offset := iterate_offset s + block_size s\<rparr>) \<and>
         same_file s sa \<and> valid sa = valid s \<and> cur_blob_record sa = cur_blob_record s \<and>
         cur_record_offset sa = cur_record_offset s \<and> cur_record_size sa = cur_record_size s \<and>
         (\<not> iterate_offset s + block_size s < end_of_blob_record s \<longrightarrow>
            PrefetchAndGet c s =
              Some (sa\<lparr>status := OK,
                      readahead_end_offset := max (readahead_end_offset sa) (iterate_offset s),
                      iterate_offset := iterate_offset s + block_size s,
                      valid := False\<rparr>)) \<and>
         (consts_ok c \<and> readahead_ok c s \<and>
          iterate_offset s + block_size s < end_of_blob_record s \<longrightarrow>
            (\<forall>n r. slot_ok c (file_reader s) (unat (block_size s))
                     (unat (iterate_offset s + block_size s)) (Live n r) \<longrightarrow>
               (\<exists>s'. PrefetchAndGet c s = Some s' \<and> status s' = OK \<and> valid s' \<and>
                     cur_blob_record s' = r \<and>
                     cur_record_offset s' = iterate_offset s + block_size s)) \<and>
            (fst (read_record_header (file_reader s) (iterate_offset s + block_size s)) \<noteq> OK \<longrightarrow>
               (\<exists>s'. PrefetchAndGet c s = Some s' \<and>
                     status s' =
                       fst (read_record_header (file_reader s)
                              (iterate_offset s + block_size s)) \<and>
                     iterate_offset s' = iterate_offset s + block_size s \<and>
                     valid s' = valid s \<and> cur_blob_record s' = cur_blob_record s)))"
proof (intro conjI impI allI)
  note nx = PrefetchAndGet_hole_next[OF assms]
  show "GetBlobRecord c sa = (False, sa\<lparr>status := OK\<rparr>)"
    using PrefetchAndGet_hole_general[OF assms] by blast
  show "PrefetchAndGet c s =
           PrefetchAndGet c
             (sa\<lparr>status := OK,
                 readahead_end_offset := max (readahead_end_offset sa) (iterate_offset s),
                 iterate_offset := iterate_offset s + block_size s\<rparr>)"
    by (rule nx(1))
  show "same_file s sa" "valid sa = valid s" "cur_blob_record sa = cur_blob_record s"
    "cur_record_offset sa = cur_record_offset s" "cur_record_size sa = cur_record_size s"
    by (rule nx)+
  {
    assume e: "\<not> iterate_offset s + block_size s < end_of_blob_record s"
    have eb: "end_of_blob_record sa = end_of_blob_record s"
      using nx(2) by (simp add: same_file_def)
    have "PrefetchAndGet c
             (sa\<lparr>status := OK,
                 readahead_end_offset := max (readahead_end_offset sa) (iterate_offset s),
                 iterate_offset := iterate_offset s + block_size s\<rparr>) =
          Some (sa\<lparr>status := OK,
                      readahead_end_offset := max (readahead_end_offset sa) (iterate_offset s),
                      iterate_offset := iterate_offset s + block_size s,
                      valid := False\<rparr>)"
      by (subst PrefetchAndGet_end) (use e eb in simp_all)
    then show "PrefetchAndGet c s =
              Some (sa\<lparr>status := OK,
                      readahead_end_offset := max (readahead_end_offset sa) (iterate_offset s),
                      iterate_offset := iterate_offset s + block_size s,
                      valid := False\<rparr>)"
      unfolding nx(1) .
  }
next
  fix n r
  assume h: "consts_ok c \<and> readahead_ok c s \<and>
          iterate_offset s + block_size s < end_of_blob_record s"
    and sl: "slot_ok c (file_reader s) (unat (block_size s))
                     (unat (iterate_offset s + block_size s)) (Live n r)"
  from h have h1: "consts_ok c" and h2: "readahead_ok c s"
    and h3: "iterate_offset s + block_size s < end_of_blob_record s"
    by simp_all
  show "\<exists>s'. PrefetchAndGet c s = Some s' \<and> status s' = OK \<and> valid s' \<and>
                     cur_blob_record s' = r \<and>
                     cur_record_offset s' = iterate_offset s + block_size s"
    by (rule PrefetchAndGet_hole_then_live[OF h1 h2 assms(1,3) h3 sl])
next
  assume h: "consts_ok c \<and> readahead_ok c s \<and>
          iterate_offset s + block_size s < end_of_blob_record s"
    and er: "fst (read_record_header (file_reader s) (iterate_offset s + block_size s)) \<noteq> OK"
  from h have h1: "consts_ok c" and h2: "readahead_ok c s"
    and h3: "iterate_offset s + block_size s < end_of_blob_record s"
    by simp_all
  show "\<exists>s'. PrefetchAndGet c s = Some s' \<and>
                     status s' =
                       fst (read_record_header (file_reader s)
                              (iterate_offset s + block_size s)) \<and>
                     iterate_offset s' = iterate_offset s + block_size s \<and>
                     valid s' = valid s \<and> cur_blob_record s' = cur_blob_record s"
    by (rule PrefetchAndGet_hole_then_error[OF h1 h2 assms(1,3) h3 er])
qed

lemma at_hole_eq:
  "at_hole bs = iter_1\<lparr>status := OK, header_size := 16, end_of_blob_record := 64,
        block_size := bs, init := True, iterate_offset := 32\<rparr>"
  unfolding at_hole_def iter_1_def Init_example by simp

lemma readahead_at_hole:
  "readahead titan_c (at_hole bs) =
     Some ((at_hole bs)\<lparr>readahead_end_offset := 4096, readahead_size := 8192\<rparr>)"
  unfolding at_hole_eq
  by (simp add: readahead_def grow_readahead.simps Let_def example_defs)

text \<open>
  The hole-punched block at offset 32: with a block size of 16 the scan yields the
  record at 48, with a block size of 32 it ends at the boundary 64.
\<close>

theorem hole_punch_marker_is_skipped_witness:
  "(\<exists>s'. PrefetchAndGet titan_c (at_hole 16) = Some s' \<and> status s' = OK \<and> Valid s' \<and>
         cur_record_offset s' = 48 \<and> cur_blob_record s' = rec_B) \<and>
   (\<exists>s'. PrefetchAndGet titan_c (at_hole 32) = Some s' \<and> status s' = OK \<and> \<not> Valid s' \<and>
         iterate_offset s' = 64)"
proof -
  have lt: "iterate_offset (at_hole bs) < end_of_blob_record (at_hole bs)" for bs
    unfolding at_hole_eq by simp
  have hole: "read_record_header (file_reader (at_hole bs)) (iterate_offset (at_hole bs)) = (OK, 0)"
    for bs
    unfolding at_hole_eq by (simp add: example_defs)
  have ra: "readahead_ok titan_c (at_hole 16)"
    unfolding at_hole_eq by (simp add: readahead_ok_def example_defs)
  have n16: "iterate_offset (at_hole 16) + block_size (at_hole 16) = 48"
    and e16: "end_of_blob_record (at_hole 16) = 64" and b16: "block_size (at_hole 16) = 16"
    unfolding at_hole_eq by simp_all
  have pre: "consts_ok titan_c \<and> readahead_ok titan_c (at_hole 16) \<and>
      iterate_offset (at_hole 16) + block_size (at_hole 16) < end_of_blob_record (at_hole 16)"
    using consts_ok_titan ra by (simp add: n16 e16)
  have live: "slot_ok titan_c (file_reader (at_hole 16)) (unat (block_size (at_hole 16)))
                (unat (iterate_offset (at_hole 16) + block_size (at_hole 16))) (Live 5 rec_B)"
    unfolding n16 b16 unfolding at_hole_eq by (simp add: example_defs)
  from hole_punch_marker_is_skipped[OF lt[of 16] readahead_at_hole[of 16] hole[of 16],
      THEN conjunct2, THEN conjunct2, THEN conjunct2, THEN conjunct2, THEN conjunct2,
      THEN conjunct2, THEN conjunct2, THEN conjunct2, THEN mp, OF pre, THEN conjunct1,
      rule_format, OF live]
  have "\<exists>s'. PrefetchAndGet titan_c (at_hole 16) = Some s' \<and> status s' = OK \<and> valid s' \<and>
         cur_blob_record s' = rec_B \<and> cur_record_offset s' = 48"
    unfolding n16 .
  then have 1: "\<exists>s'. PrefetchAndGet titan_c (at_hole 16) = Some s' \<and> status s' = OK \<and>
         Valid s' \<and> cur_record_offset s' = 48 \<and> cur_blob_record s' = rec_B"
    by (auto simp: Valid_def)
  have n32: "iterate_offset (at_hole 32) + block_size (at_hole 32) = 64"
    and e32: "end_of_blob_record (at_hole 32) = 64"
    unfolding at_hole_eq by simp_all
  have ne: "\<not> iterate_offset (at_hole 32) + block_size (at_hole 32) <
              end_of_blob_record (at_hole 32)"
    by (simp add: n32 e32)
  from hole_punch_marker_is_skipped[OF lt[of 32] readahead_at_hole[of 32] hole[of 32],
      THEN conjunct2, THEN conjunct2, THEN conjunct2, THEN conjunct2, THEN conjunct2,
      THEN conjunct2, THEN conjunct2, THEN conjunct1, THEN mp, OF ne]
  have "\<exists>s'. PrefetchAndGet titan_c (at_hole 32) = Some s' \<and> status s' = OK \<and>
         \<not> valid s' \<and> iterate_offset s' = 64"
    by (simp add: n32)
  then have 2: "\<exists>s'. PrefetchAndGet titan_c (at_hole 32) = Some s' \<and> status s' = OK \<and>
         \<not> Valid s' \<and> iterate_offset s' = 64"
    by (auto simp: Valid_def)
  from 1 2 show ?thesis by blast
qed

text \<open>
  C10. When the block size is 0 and the record header at the cursor, inside the record
  region, decodes to payload length 0, \<open>PrefetchAndGet\<close> does not return: the iteration
  continues from a state with the same cursor over the same file. With sane read-ahead
  constants, \<open>PrefetchAndGet\<close> returns when the block size is non-zero and the boundary
  plus the block size does not wrap around, and also when no record header before the
  boundary decodes to payload length 0.
\<close>

theorem PrefetchAndGet_termination:
  "(block_size s = 0 \<and> iterate_offset s < end_of_blob_record s \<and>
    read_record_header (file_reader s) (iterate_offset s) = (OK, 0) \<longrightarrow>
      PrefetchAndGet c s = None \<and>
      (\<forall>sa. readahead c s = Some sa \<longrightarrow>
         (\<exists>s1. PrefetchAndGet c s = PrefetchAndGet c s1 \<and>
               iterate_offset s1 = iterate_offset s \<and> same_file s s1))) \<and>
   (consts_ok c \<and> readahead_ok c s \<and>
    (block_size s \<noteq> 0 \<and> unat (end_of_blob_record s) + unat (block_size s) < 2 ^ 64 \<or>
     (\<forall>off. off < end_of_blob_record s \<longrightarrow>
        read_record_header (file_reader s) off \<noteq> (OK, 0))) \<longrightarrow>
      (\<exists>s'. PrefetchAndGet c s = Some s'))"
proof (intro conjI impI allI)
  assume a: "block_size s = 0 \<and> iterate_offset s < end_of_blob_record s \<and>
    read_record_header (file_reader s) (iterate_offset s) = (OK, 0)"
  then show "PrefetchAndGet c s = None"
    by (intro PrefetchAndGet_diverges) simp_all
  fix sa
  assume "readahead c s = Some sa"
  with a have "\<exists>s1. PrefetchAndGet c s = PrefetchAndGet c s1 \<and>
            iterate_offset s1 = iterate_offset s + block_size s \<and> status s1 = OK \<and>
            valid s1 = valid s \<and> cur_blob_record s1 = cur_blob_record s \<and>
            cur_record_offset s1 = cur_record_offset s \<and>
            cur_record_size s1 = cur_record_size s \<and> same_file s s1"
    using PrefetchAndGet_hole_general[of s c sa] by simp
  then show "\<exists>s1. PrefetchAndGet c s = PrefetchAndGet c s1 \<and>
               iterate_offset s1 = iterate_offset s \<and> same_file s s1"
    using a by auto
next
  assume b: "consts_ok c \<and> readahead_ok c s \<and>
    (block_size s \<noteq> 0 \<and> unat (end_of_blob_record s) + unat (block_size s) < 2 ^ 64 \<or>
     (\<forall>off. off < end_of_blob_record s \<longrightarrow>
        read_record_header (file_reader s) off \<noteq> (OK, 0)))"
  then have co: "consts_ok c" and ra: "readahead_ok c s" by simp_all
  from b consider
    (block) "block_size s \<noteq> 0" "unat (end_of_blob_record s) + unat (block_size s) < 2 ^ 64"
    | (nohole) "\<forall>off. off < end_of_blob_record s \<longrightarrow>
        read_record_header (file_reader s) off \<noteq> (OK, 0)"
    by blast
  then show "\<exists>s'. PrefetchAndGet c s = Some s'"
  proof cases
    case block
    then show ?thesis by (intro PrefetchAndGet_returns_block[OF co ra])
  next
    case nohole
    show ?thesis
    proof (cases "iterate_offset s < end_of_blob_record s")
      case True
      then have "read_record_header (file_reader s) (iterate_offset s) \<noteq> (OK, 0)"
        using nohole by simp
      then show ?thesis by (intro PrefetchAndGet_returns_no_hole[OF co ra])
    next
      case False
      then show ?thesis by (simp add: PrefetchAndGet_end)
    qed
  qed
qed

text \<open>The hole-punched block at offset 32 with a block size of 0, and of 16.\<close>

theorem PrefetchAndGet_termination_witness:
  "PrefetchAndGet titan_c (at_hole 0) = None \<and>
   (\<exists>s'. PrefetchAndGet titan_c (at_hole 16) = Some s')"
proof -
  have a: "block_size (at_hole 0) = 0 \<and>
      iterate_offset (at_hole 0) < end_of_blob_record (at_hole 0) \<and>
      read_record_header (file_reader (at_hole 0)) (iterate_offset (at_hole 0)) = (OK, 0)"
    unfolding at_hole_eq by (simp add: example_defs)
  have ra: "readahead_ok titan_c (at_hole 16)"
    unfolding at_hole_eq by (simp add: readahead_ok_def example_defs)
  have b: "consts_ok titan_c \<and> readahead_ok titan_c (at_hole 16) \<and>
    (block_size (at_hole 16) \<noteq> 0 \<and>
       unat (end_of_blob_record (at_hole 16)) + unat (block_size (at_hole 16)) < 2 ^ 64 \<or>
     (\<forall>off. off < end_of_blob_record (at_hole 16) \<longrightarrow>
        read_record_header (file_reader (at_hole 16)) off \<noteq> (OK, 0)))"
    using consts_ok_titan ra unfolding at_hole_eq by simp
  from PrefetchAndGet_termination[of "at_hole 0" titan_c] a
  have 1: "PrefetchAndGet titan_c (at_hole 0) = None" by blast
  from PrefetchAndGet_termination[of "at_hole 16" titan_c] b
  have 2: "\<exists>s'. PrefetchAndGet titan_c (at_hole 16) = Some s'" by blast
  from 1 2 show ?thesis by simp
qed

subsection \<open>Merges on the example files\<close>

lemma bytewise_compare_Cons:
  "bytewise_compare (x # xs) (y # ys) \<le> 0 \<longleftrightarrow>
     (of_char x :: nat) < of_char y \<or>
     (of_char x :: nat) = of_char y \<and> bytewise_compare xs ys \<le> 0"
  by auto

lemma bytewise_compare_total: "bytewise_compare a b \<le> 0 \<or> bytewise_compare b a \<le> 0"
proof (induction a arbitrary: b)
  case Nil
  show ?case by (cases b) simp_all
next
  case (Cons x xs)
  show ?case
  proof (cases b)
    case Nil
    then show ?thesis by simp
  next
    case (Cons y ys)
    have "bytewise_compare xs ys \<le> 0 \<or> bytewise_compare ys xs \<le> 0"
      by (rule Cons.IH)
    then show ?thesis
      unfolding Cons bytewise_compare_Cons by linarith
  qed
qed

lemma bytewise_compare_trans:
  "bytewise_compare a b \<le> 0 \<Longrightarrow> bytewise_compare b d \<le> 0 \<Longrightarrow> bytewise_compare a d \<le> 0"
proof (induction a arbitrary: b d)
  case Nil
  show ?case by (cases d) simp_all
next
  case (Cons x xs)
  show ?case
  proof (cases b)
    case Nil
    then show ?thesis using Cons.prems(1) by simp
  next
    case b: (Cons y ys)
    show ?thesis
    proof (cases d)
      case Nil
      then show ?thesis using Cons.prems(2) b by simp
    next
      case d: (Cons z zs)
      have A: "(of_char x :: nat) < of_char y \<or>
               (of_char x :: nat) = of_char y \<and> bytewise_compare xs ys \<le> 0"
        using Cons.prems(1) unfolding b bytewise_compare_Cons .
      have B: "(of_char y :: nat) < of_char z \<or>
               (of_char y :: nat) = of_char z \<and> bytewise_compare ys zs \<le> 0"
        using Cons.prems(2) unfolding b d bytewise_compare_Cons .
      have IH: "bytewise_compare xs ys \<le> 0 \<Longrightarrow> bytewise_compare ys zs \<le> 0 \<Longrightarrow>
                bytewise_compare xs zs \<le> 0"
        by (rule Cons.IH)
      have "(of_char x :: nat) < of_char z \<or>
            (of_char x :: nat) = of_char z \<and> bytewise_compare xs zs \<le> 0"
        using A B IH by linarith
      then show ?thesis
        unfolding d bytewise_compare_Cons .
    qed
  qed
qed

lemma comparator_ok_bytewise: "comparator_ok bytewise_compare"
  unfolding comparator_ok_def
proof (intro conjI allI impI)
  fix a b
  show "bytewise_compare a b \<le> 0 \<or> bytewise_compare b a \<le> 0"
    by (rule bytewise_compare_total)
next
  fix a b d
  assume "bytewise_compare a b \<le> 0 \<and> bytewise_compare b d \<le> 0"
  then show "bytewise_compare a d \<le> 0"
    using bytewise_compare_trans[of a b d] by blast
qed

lemmas merge_eval_defs =
  merge_all_def MergeSeekToFirst_def MergeNext_def MergeValid_def MergeRecord_def
  merge_drain.simps take_top_def new_BlobFileMergeIterator_def BlobFileIterComparator_def

text \<open>
  A single child whose file holds key \<^verbatim>\<open>b\<close> before key \<^verbatim>\<open>a\<close>: the merge emits them in file
  order, which is decreasing under the bytewise comparator.
\<close>

theorem merge_unsorted_child_counterexample:
  "merge_all titan_c bytewise_compare [example_iter rec_B rec_A OK] = Some (Inr [rec_B, rec_A]) \<and>
   \<not> key_le bytewise_compare rec_B rec_A"
  by (simp add: merge_eval_defs eval_defs example_defs key_le_def)

text \<open>Two children over files holding the keys a, b and a, c.\<close>

theorem merge_emits_union_sorted_witness:
  "\<exists>out. merge_all titan_c bytewise_compare [iter_1, example_iter rec_A rec_C OK] =
           Some (Inr out) \<and>
         mset out = {#rec_A, rec_B, rec_A, rec_C#} \<and>
         sorted_wrt (key_le bytewise_compare) out"
proof -
  have h: "list_all2 (\<lambda>it rs. \<exists>t. scan_all titan_c it = Some (rs, t))
             [iter_1, example_iter rec_A rec_C OK]
             [[(16, rec_A), (48, rec_B)], [(16, rec_A), (48, rec_C)]]"
    using scan_example[of rec_A rec_B OK] scan_example[of rec_A rec_C OK]
    by (simp add: iter_1_def)
  have s: "\<forall>rs \<in> set [[(16 :: u64, rec_A), (48, rec_B)], [(16, rec_A), (48, rec_C)]].
             sorted_wrt (key_le bytewise_compare) (map snd rs)"
    by (simp add: key_le_def rec_A_def rec_B_def rec_C_def)
  from merge_emits_union_sorted[OF h, of bytewise_compare] comparator_ok_bytewise s
  show ?thesis by auto
qed

end
